theory Spec2Isabelle
  imports Main
begin

section \<open>Data model\<close>

text \<open>
  The program simulates a leader election on a ring. A \<open>Node\<close> object carries its
  identifier, its two neighbours and the election attributes. Identifiers are the
  natural numbers that the script draws from \<open>range(num_nodes)\<close>; the simulation
  clock \<open>env.now\<close> and the round cap are Python integers.

  Python objects are shared by reference (a node is reachable from the graph's node
  list, from its neighbours and as a key of the message dictionary), so the model keeps
  the \<open>Node\<close> objects in a heap, a list of records, and a reference is an index into it.
\<close>

datatype node_status = Asleep | Participating | Relay | NotElected | Elected

text \<open>The attribute \<open>min\<close>: \<open>None\<close>, a number, or \<open>float('inf')\<close>.\<close>

datatype min_value = Unset | Known nat | Infinity

type_synonym message = "nat \<times> nat"

type_synonym entry = "nat \<times> nat \<times> int"

record node =
  ident :: nat
  left_neighbor :: "nat option"
  right_neighbor :: "nat option"
  status :: node_status
  min_val :: min_value
  waiting :: "entry list"
  is_leader :: bool

datatype error = KeyError | AttributeError

record graph =
  now :: int
  max_rounds :: "int option"
  nodes :: "nat list"
  heap :: "node list"
  messages :: "nat \<rightharpoonup> message list"

section \<open>Construction of the ring\<close>

definition Node :: "nat \<Rightarrow> node" where
  "Node i = \<lparr>ident = i, left_neighbor = None, right_neighbor = None, status = Asleep,
             min_val = Unset, waiting = [], is_leader = False\<rparr>"

text \<open>\<open>Edge(node1, node2)\<close> writes the two neighbour attributes, in this order.\<close>

definition Edge :: "nat \<Rightarrow> nat \<Rightarrow> node list \<Rightarrow> node list" where
  "Edge n1 n2 hp =
     (let hp1 = hp[n1 := (hp ! n1)\<lparr>right_neighbor := Some n2\<rparr>]
      in hp1[n2 := (hp1 ! n2)\<lparr>left_neighbor := Some n1\<rparr>])"

text \<open>
  \<open>Graph(nodes, edges)\<close>: a fresh clock, the node list, and an empty inbound queue for
  every node. The attribute \<open>max_rounds\<close> does not exist before \<open>run_election\<close>.
\<close>

definition Graph :: "node list \<Rightarrow> graph" where
  "Graph hp = \<lparr>now = 0, max_rounds = None, nodes = [0..<length hp], heap = hp,
               messages = (\<lambda>i. if i < length hp then Some [] else None)\<rparr>"

text \<open>
  The script's construction: one node per identifier, one edge from each node to its
  successor \<open>(i + 1) % len(nodes)\<close>, then the graph. Nothing in it raises.
\<close>

definition link_ring :: "node list \<Rightarrow> node list" where
  "link_ring hp = foldl (\<lambda>h i. Edge i ((i + 1) mod length hp) h) hp [0..<length hp]"

definition build_ring :: "nat list \<Rightarrow> error + graph" where
  "build_ring ids = Inr (Graph (link_ring (map Node ids)))"

definition make_ring :: "nat list \<Rightarrow> graph" where
  "make_ring ids = Graph (link_ring (map Node ids))"

section \<open>The transition of one node in one round\<close>

text \<open>Lines 51 to 65: a sleeping node wakes up.\<close>

definition activate :: "message list \<Rightarrow> node \<Rightarrow> node \<times> message list" where
  "activate R n =
     (if status n = Asleep then
        (if R = [] then (n\<lparr>status := Participating, min_val := Known (ident n)\<rparr>, [(ident n, 1)])
         else (n\<lparr>status := Relay, min_val := Infinity\<rparr>, []))
      else (n, []))"

text \<open>The test \<open>node.min is None or m < node.min\<close>.\<close>

fun below_min :: "nat \<Rightarrow> min_value \<Rightarrow> bool" where
  "below_min m Unset = True"
| "below_min m (Known k) = (m < k)"
| "below_min m Infinity = True"

text \<open>Lines 68 to 91: the body of the loop over the received messages.\<close>

fun compare_msg :: "int \<Rightarrow> node \<times> message list \<Rightarrow> message \<Rightarrow> node \<times> message list" where
  "compare_msg t (n, S) (m, h) =
     (if below_min m (min_val n) then
        (let past_status = status n;
             n' = n\<lparr>status := NotElected, min_val := Known m\<rparr>
         in if past_status = Relay \<and> h = 1 then (n', S @ [(m, h)])
            else (n'\<lparr>waiting := waiting n' @ [(m, 2, t)]\<rparr>, S))
      else if m = ident n then (n\<lparr>status := Elected, is_leader := True\<rparr>, S)
      else (n, S))"

text \<open>The hold time test of line 97.\<close>

definition due :: "int \<Rightarrow> entry \<Rightarrow> bool" where
  "due t e = (case e of (m, h, stored_time) \<Rightarrow> t - stored_time \<ge> 2 ^ m - 1)"

text \<open>Lines 94 to 101: the loop over the waiting entries, with its two accumulators.\<close>

fun release :: "int \<Rightarrow> entry list \<Rightarrow> message list \<times> entry list \<Rightarrow> message list \<times> entry list" where
  "release t [] acc = acc"
| "release t ((m, h, stored_time) # ws) (S, new_waiting) =
     (if due t (m, h, stored_time) then release t ws (S @ [(m, h)], new_waiting)
      else release t ws (S, new_waiting @ [(m, h, stored_time)]))"

definition node_event :: "int \<Rightarrow> message list \<Rightarrow> node \<Rightarrow> node \<times> message list" where
  "node_event t R n =
     (let (n1, S1) = foldl (compare_msg t) (activate R n) R;
          (S2, new_waiting) = release t (waiting n1) (S1, [])
      in (n1\<lparr>waiting := new_waiting\<rparr>, S2))"

section \<open>Rounds\<close>

text \<open>
  Lines 43 to 108: the loop over \<open>self.nodes\<close>. A lookup of a missing key in one of
  the two dictionaries raises \<open>KeyError\<close>; a node without left neighbour has
  \<open>None\<close> there, which is no key either.
\<close>

fun process_nodes ::
  "int \<Rightarrow> (nat \<rightharpoonup> message list) \<Rightarrow> nat list \<Rightarrow> node list \<times> (nat \<rightharpoonup> message list) \<times> bool
     \<Rightarrow> error + (node list \<times> (nat \<rightharpoonup> message list) \<times> bool)" where
  "process_nodes t cur [] st = Inr st"
| "process_nodes t cur (i # rest) (hp, msgs, activity) =
     (case cur i of
        None \<Rightarrow> Inl KeyError
      | Some R \<Rightarrow>
          (let (n', S) = node_event t R (hp ! i);
               hp' = hp[i := n']
           in if S \<noteq> [] \<or> waiting n' \<noteq> [] then
                (case left_neighbor n' of
                   None \<Rightarrow> Inl KeyError
                 | Some l \<Rightarrow>
                     (case msgs l of
                        None \<Rightarrow> Inl KeyError
                      | Some q \<Rightarrow> process_nodes t cur rest (hp', msgs(l \<mapsto> q @ S), True)))
              else process_nodes t cur rest (hp', msgs, activity)))"

definition process_round :: "graph \<Rightarrow> error + (bool \<times> graph)" where
  "process_round g =
     (case process_nodes (now g) (messages g) (nodes g)
             (heap g, (\<lambda>i. if i \<in> set (nodes g) then Some [] else None), False) of
        Inl e \<Rightarrow> Inl e
      | Inr (hp, msgs, activity) \<Rightarrow> Inr (activity, g\<lparr>heap := hp, messages := msgs\<rparr>))"

text \<open>
  Lines 116 to 127: the scheduler. The conjunction is evaluated left to right, so the
  cap is read only while there is activity; each turn ends with \<open>env.timeout(1)\<close>.
\<close>

function round_process :: "bool \<Rightarrow> graph \<Rightarrow> error + (bool \<times> graph)" where
  "round_process activity g =
     (if activity then
        (case max_rounds g of
           None \<Rightarrow> Inl AttributeError
         | Some cap \<Rightarrow>
             if now g < cap then
               (case process_round g of
                  Inl e \<Rightarrow> Inl e
                | Inr (activity', g') \<Rightarrow> round_process activity' (g'\<lparr>now := now g' + 1\<rparr>))
             else Inr (activity, g))
      else Inr (activity, g))"
  by pat_completeness auto
termination
  by (relation "measure (\<lambda>(a, g). nat (the (max_rounds g) - now g))")
     (auto simp: process_round_def split: sum.splits)

declare round_process.simps [simp del]

text \<open>
  Lines 129 to 148. The initiator is \<open>None\<close> by default. Lines 132 and 135 store
  the cap and move the nodes with the initiator's identifier to the front.
\<close>

definition election_setup :: "int \<Rightarrow> nat option \<Rightarrow> graph \<Rightarrow> graph" where
  "election_setup cap initiator_id g =
     g\<lparr>max_rounds := Some cap,
       nodes := filter (\<lambda>i. Some (ident (heap g ! i)) = initiator_id) (nodes g)
              @ filter (\<lambda>i. Some (ident (heap g ! i)) \<noteq> initiator_id) (nodes g)\<rparr>"

definition leaders :: "graph \<Rightarrow> nat list" where
  "leaders g = filter (\<lambda>i. is_leader (heap g ! i)) (nodes g)"

definition run_election :: "int \<Rightarrow> nat option \<Rightarrow> graph \<Rightarrow> error + (nat list \<times> graph)" where
  "run_election cap initiator_id g =
     (case round_process True (election_setup cap initiator_id g) of
        Inl e \<Rightarrow> Inl e
      | Inr (activity, g2) \<Rightarrow> Inr (leaders g2, g2))"

section \<open>Notions used in the statements and proofs\<close>

text \<open>What the edge loop has done after its first \<open>k\<close> turns.\<close>

definition linked :: "nat \<Rightarrow> node list \<Rightarrow> node list \<Rightarrow> bool" where
  "linked k hp h \<longleftrightarrow> length h = length hp \<and>
     (\<forall>i < length hp. h ! i = (hp ! i)
        \<lparr>left_neighbor := (if (1 \<le> i \<and> i \<le> k) \<or> (i = 0 \<and> k = length hp)
                           then Some ((i + length hp - 1) mod length hp) else left_neighbor (hp ! i)),
         right_neighbor := (if i < k then Some ((i + 1) mod length hp) else right_neighbor (hp ! i))\<rparr>)"

text \<open>The message that a waiting entry becomes when it is released.\<close>

definition strip :: "entry \<Rightarrow> message" where
  "strip e = (case e of (m, h, stored_time) \<Rightarrow> (m, h))"

text \<open>The transition of node \<open>i\<close> on its own inbound queue.\<close>

definition event :: "int \<Rightarrow> (nat \<rightharpoonup> message list) \<Rightarrow> node list \<Rightarrow> nat \<Rightarrow> node \<times> message list" where
  "event t cur hp i = node_event t (the (cur i)) (hp ! i)"

definition ring :: "graph \<Rightarrow> bool" where
  "ring g \<longleftrightarrow> distinct (nodes g) \<and> set (nodes g) = {..<length (heap g)} \<and>
     (\<forall>i < length (heap g). messages g i \<noteq> None \<and>
        left_neighbor (heap g ! i) = Some ((i + length (heap g) - 1) mod length (heap g)))"

definition round_heap :: "graph \<Rightarrow> node list" where
  "round_heap g = map (\<lambda>i. fst (event (now g) (messages g) (heap g) i)) [0..<length (heap g)]"

definition round_messages :: "graph \<Rightarrow> (nat \<rightharpoonup> message list)" where
  "round_messages g =
     (\<lambda>l. if l < length (heap g)
          then Some (snd (event (now g) (messages g) (heap g) ((l + 1) mod length (heap g))))
          else None)"

definition round_activity :: "graph \<Rightarrow> bool" where
  "round_activity g \<longleftrightarrow>
     (\<exists>i < length (heap g). snd (event (now g) (messages g) (heap g) i) \<noteq> []
                          \<or> waiting (fst (event (now g) (messages g) (heap g) i)) \<noteq> [])"

text \<open>One turn of the scheduler on a ring, in closed form.\<close>

definition advance :: "graph \<Rightarrow> graph" where
  "advance g = g\<lparr>heap := round_heap g, messages := round_messages g, now := now g + 1\<rparr>"

text \<open>
  The states at the head of the scheduler's loop, each with the activity flag that the
  loop tests there.
\<close>

inductive reachable :: "graph \<Rightarrow> bool \<times> graph \<Rightarrow> bool" for g0 where
  start: "reachable g0 (True, g0)"
| turn: "reachable g0 (True, g) \<Longrightarrow> max_rounds g = Some cap \<Longrightarrow> now g < cap \<Longrightarrow>
         process_round g = Inr (a, g') \<Longrightarrow> reachable g0 (a, g'\<lparr>now := now g' + 1\<rparr>)"

text \<open>The state in which the script hands the ring over: nothing has happened yet.\<close>

definition fresh :: "graph \<Rightarrow> bool" where
  "fresh g \<longleftrightarrow> (\<forall>i < length (heap g). heap g ! i = (Node (ident (heap g ! i)))
        \<lparr>left_neighbor := left_neighbor (heap g ! i), right_neighbor := right_neighbor (heap g ! i)\<rparr>
      \<and> messages g i = Some [])"

text \<open>A node that has woken up by itself: it is no relay and knows a minimum.\<close>

definition awake_node :: "node \<Rightarrow> bool" where
  "awake_node n \<longleftrightarrow> status n \<noteq> Asleep \<and> status n \<noteq> Relay \<and> (\<exists>v. min_val n = Known v)"

text \<open>The state of a node after the comparisons with the messages \<open>R\<close>.\<close>

definition compared :: "int \<Rightarrow> message list \<Rightarrow> node \<Rightarrow> node" where
  "compared t R n = fst (foldl (compare_msg t) (n, []) R)"

text \<open>The condition under which line 81 runs: the message is forwarded at once.\<close>

fun relays_cheaply :: "node \<Rightarrow> message \<Rightarrow> bool" where
  "relays_cheaply n (m, h) = (below_min m (min_val n) \<and> status n = Relay \<and> h = 1)"

text \<open>Every node has woken up by itself.\<close>

definition running :: "graph \<Rightarrow> bool" where
  "running g \<longleftrightarrow> (\<forall>i < length (heap g). awake_node (heap g ! i))"

text \<open>Every waiting entry was queued in an earlier round and was not yet due in the last one.\<close>

definition timed :: "graph \<Rightarrow> bool" where
  "timed g \<longleftrightarrow> (\<forall>i < length (heap g). \<forall>(m, h, stored_time) \<in> set (waiting (heap g ! i)).
       h = 2 \<and> stored_time < now g \<and> \<not> due (now g - 1) (m, h, stored_time))"

text \<open>Before round 0 nothing has happened; afterwards every node is awake.\<close>

definition phase :: "nat list \<Rightarrow> graph \<Rightarrow> bool" where
  "phase ids g \<longleftrightarrow> length (heap g) = length ids \<and> (\<forall>i < length ids. ident (heap g ! i) = ids ! i)
     \<and> ((fresh g \<and> now g = 0) \<or> (running g \<and> 0 < now g))"

text \<open>The number of hops to the left that lead from position \<open>x\<close> to position \<open>p\<close>.\<close>

definition hops :: "nat \<Rightarrow> nat \<Rightarrow> nat \<Rightarrow> nat" where
  "hops N p x = (x + N - p) mod N"

text \<open>What node \<open>i\<close> sends in the round played at \<open>g\<close>.\<close>

definition sent :: "graph \<Rightarrow> nat \<Rightarrow> message list" where
  "sent g i = snd (event (now g) (messages g) (heap g) i)"

text \<open>Position \<open>p\<close> holds a smallest identifier.\<close>

definition smallest :: "nat list \<Rightarrow> nat \<Rightarrow> bool" where
  "smallest ids p \<longleftrightarrow> p < length ids \<and> (\<forall>k < length ids. ids ! p \<le> ids ! k)"

text \<open>
  The candidate \<open>m\<close>, found at position \<open>j\<close>, has not gone past the node \<open>p\<close>: it is
  the identifier of \<open>p\<close> itself, or of a node that is farther from \<open>p\<close> than \<open>j\<close> is.
\<close>

definition behind :: "nat list \<Rightarrow> nat \<Rightarrow> nat \<Rightarrow> nat \<Rightarrow> bool" where
  "behind ids p m j \<longleftrightarrow>
     (\<exists>k < length ids. m = ids ! k \<and> (k = p \<or> hops (length ids) p j < hops (length ids) p k))"

text \<open>No candidate has passed the node \<open>p\<close>, which never gives way; nobody else is elected.\<close>

definition safe :: "nat list \<Rightarrow> nat \<Rightarrow> graph \<Rightarrow> bool" where
  "safe ids p g \<longleftrightarrow>
     (\<forall>j < length ids.
        (\<forall>(m, h) \<in> set (the (messages g j)). behind ids p m j) \<and>
        (\<forall>(m, h, stored_time) \<in> set (waiting (heap g ! j)). j \<noteq> p \<and> behind ids p m j) \<and>
        (j \<noteq> p \<longrightarrow> \<not> is_leader (heap g ! j) \<and> status (heap g ! j) \<noteq> Elected) \<and>
        (\<exists>v. min_val (heap g ! j) = Known v \<and> ids ! p \<le> v)) \<and>
     min_val (heap g ! p) = Known (ids ! p) \<and> status (heap g ! p) \<noteq> NotElected"

text \<open>The ring, as the election on the identifiers \<open>ids\<close> keeps it.\<close>

definition setting :: "nat list \<Rightarrow> nat \<Rightarrow> graph \<Rightarrow> bool" where
  "setting ids p g \<longleftrightarrow> ring g \<and> length (heap g) = length ids
     \<and> (\<forall>i < length ids. ident (heap g ! i) = ids ! i) \<and> distinct ids \<and> smallest ids p"

text \<open>
  The candidate of \<open>p\<close> is not lost: a node that has taken it over still holds it, or
  has sent it to its left neighbour, who has it in its inbound queue or has taken it over
  or is \<open>p\<close> itself, elected.
\<close>

definition live :: "nat list \<Rightarrow> nat \<Rightarrow> graph \<Rightarrow> bool" where
  "live ids p g \<longleftrightarrow>
     (\<forall>x < length ids. min_val (heap g ! x) = Known (ids ! p) \<longrightarrow>
        (\<exists>h s. (ids ! p, h, s) \<in> set (waiting (heap g ! x)))
      \<or> (\<exists>h. (ids ! p, h) \<in> set (the (messages g ((x + length ids - 1) mod length ids))))
      \<or> ((x + length ids - 1) mod length ids \<noteq> p
           \<and> min_val (heap g ! ((x + length ids - 1) mod length ids)) = Known (ids ! p))
      \<or> ((x + length ids - 1) mod length ids = p
           \<and> status (heap g ! p) = Elected \<and> is_leader (heap g ! p)))"

section \<open>The ring that the script builds\<close>

lemma linked_0: "linked 0 hp hp"
  by (cases hp) (auto simp: linked_def)

lemma linked_Suc:
  assumes "linked k hp h" "k < length hp"
  shows "linked (Suc k) hp (Edge k ((k + 1) mod length hp) h)"
proof -
  let ?N = "length hp"
  have len: "length h = ?N" using assms by (simp add: linked_def)
  show ?thesis
  proof (cases "Suc k = ?N")
    case True
    then have m: "(k + 1) mod ?N = 0" by simp
    have N: "?N = Suc k" using True by simp
    show ?thesis
      using assms len unfolding linked_def m Edge_def Let_def N
      by (auto simp: nth_list_update less_Suc_eq)
  next
    case False
    then have lt: "Suc k < ?N" using assms by simp
    then have m: "(k + 1) mod ?N = Suc k" by simp
    show ?thesis
      using assms lt len unfolding linked_def m Edge_def Let_def
      by (auto simp: nth_list_update)
  qed
qed

lemma linked_foldl:
  "k \<le> length hp \<Longrightarrow> linked k hp (foldl (\<lambda>h i. Edge i ((i + 1) mod length hp) h) hp [0..<k])"
proof (induction k)
  case 0
  show ?case by (simp add: linked_0)
next
  case (Suc k)
  then show ?case using linked_Suc[of k hp] by simp
qed

lemma link_ring_nth:
  assumes "i < length hp"
  shows "link_ring hp ! i = (hp ! i)\<lparr>left_neighbor := Some ((i + length hp - 1) mod length hp),
                                   right_neighbor := Some ((i + 1) mod length hp)\<rparr>"
proof -
  have "linked (length hp) hp (link_ring hp)"
    unfolding link_ring_def by (rule linked_foldl) simp
  then show ?thesis using assms unfolding linked_def
    by (cases "i = 0") auto
qed

lemma length_link_ring: "length (link_ring hp) = length hp"
proof -
  have "linked (length hp) hp (link_ring hp)"
    unfolding link_ring_def by (rule linked_foldl) simp
  then show ?thesis by (simp add: linked_def)
qed

section \<open>One node, one round\<close>

lemma release_filter:
  "release t ws (S, nw) = (S @ map strip (filter (due t) ws), nw @ filter (\<lambda>e. \<not> due t e) ws)"
  by (induction ws arbitrary: S nw) (auto simp: strip_def)

lemma compare_frame:
  "ident (fst (compare_msg t st x)) = ident (fst st) \<and>
   left_neighbor (fst (compare_msg t st x)) = left_neighbor (fst st) \<and>
   right_neighbor (fst (compare_msg t st x)) = right_neighbor (fst st)"
  by (cases st; cases x) (simp add: Let_def)

lemma compare_all_frame:
  "ident (fst (foldl (compare_msg t) st R)) = ident (fst st) \<and>
   left_neighbor (fst (foldl (compare_msg t) st R)) = left_neighbor (fst st) \<and>
   right_neighbor (fst (foldl (compare_msg t) st R)) = right_neighbor (fst st)"
  by (induction R arbitrary: st) (simp_all add: compare_frame)

lemma activate_frame:
  "ident (fst (activate R n)) = ident n \<and> left_neighbor (fst (activate R n)) = left_neighbor n
   \<and> right_neighbor (fst (activate R n)) = right_neighbor n"
  by (simp add: activate_def)

lemma node_event_frame:
  "ident (fst (node_event t R n)) = ident n \<and> left_neighbor (fst (node_event t R n)) = left_neighbor n
   \<and> right_neighbor (fst (node_event t R n)) = right_neighbor n"
  by (simp add: node_event_def split_beta compare_all_frame activate_frame)

lemma process_nodes_closed:
  assumes "distinct ns"
    and "\<forall>i\<in>set ns. i < length hp \<and> cur i \<noteq> None"
    and "\<forall>i\<in>set ns. \<exists>l. left_neighbor (hp ! i) = Some l \<and> msgs l \<noteq> None"
  shows "process_nodes t cur ns (hp, msgs, act) =
     Inr (map (\<lambda>i. if i \<in> set ns then fst (event t cur hp i) else hp ! i) [0..<length hp],
          (\<lambda>l. map_option (\<lambda>q. q @ concat (map (\<lambda>i. snd (event t cur hp i))
                    (filter (\<lambda>i. left_neighbor (hp ! i) = Some l) ns))) (msgs l)),
          act \<or> (\<exists>i\<in>set ns. snd (event t cur hp i) \<noteq> [] \<or> waiting (fst (event t cur hp i)) \<noteq> []))"
  using assms
proof (induction ns arbitrary: hp msgs act)
  case Nil
  have "(\<lambda>l. map_option (\<lambda>q. q) (msgs l)) = msgs"
    by (rule ext) (simp add: option.map_ident)
  then show ?case by (simp add: map_nth)
next
  case (Cons i rest)
  obtain R where R: "cur i = Some R" using Cons.prems by auto
  obtain n' S where ev: "node_event t R (hp ! i) = (n', S)" by (cases "node_event t R (hp ! i)")
  obtain l q where l: "left_neighbor (hp ! i) = Some l" and q: "msgs l = Some q"
    using Cons.prems by auto
  have ln': "left_neighbor n' = Some l" using node_event_frame[of t R "hp ! i"] ev l by simp
  have evi: "event t cur hp i = (n', S)" using R ev by (simp add: event_def)
  let ?hp = "hp[i := n']"
  let ?msgs = "msgs(l \<mapsto> q @ S)"
  let ?act = "act \<or> S \<noteq> [] \<or> waiting n' \<noteq> []"
  have step: "process_nodes t cur (i # rest) (hp, msgs, act) = process_nodes t cur rest (?hp, ?msgs, ?act)"
  proof (cases "S \<noteq> [] \<or> waiting n' \<noteq> []")
    case True
    then show ?thesis using R ev ln' q by simp
  next
    case False
    then have "?msgs = msgs" using q by auto
    then show ?thesis using False R ev by simp
  qed
  have ilt: "i < length hp" and inot: "i \<notin> set rest" and drest: "distinct rest"
    using Cons.prems by auto
  have same: "\<And>j. j \<in> set rest \<Longrightarrow> ?hp ! j = hp ! j" using inot by (metis nth_list_update_neq)
  have evsame: "\<And>j. j \<in> set rest \<Longrightarrow> event t cur ?hp j = event t cur hp j"
    using same by (simp add: event_def)
  have p2: "\<forall>j\<in>set rest. j < length ?hp \<and> cur j \<noteq> None" using Cons.prems by auto
  have p3: "\<forall>j\<in>set rest. \<exists>l'. left_neighbor (?hp ! j) = Some l' \<and> ?msgs l' \<noteq> None"
  proof
    fix j assume j: "j \<in> set rest"
    then obtain l' where l': "left_neighbor (hp ! j) = Some l'" "msgs l' \<noteq> None"
      using Cons.prems(3) by auto
    then show "\<exists>l'. left_neighbor (?hp ! j) = Some l' \<and> ?msgs l' \<noteq> None"
      using same[OF j] by auto
  qed
  note IH = Cons.IH[OF drest p2 p3, of ?act]
  have h: "map (\<lambda>j. if j \<in> set rest then fst (event t cur ?hp j) else ?hp ! j) [0..<length ?hp]
         = map (\<lambda>j. if j \<in> set (i # rest) then fst (event t cur hp j) else hp ! j) [0..<length hp]"
  proof (rule nth_equalityI)
    show "length (map (\<lambda>j. if j \<in> set rest then fst (event t cur ?hp j) else ?hp ! j) [0..<length ?hp])
        = length (map (\<lambda>j. if j \<in> set (i # rest) then fst (event t cur hp j) else hp ! j) [0..<length hp])"
      by simp
  next
    fix k assume "k < length (map (\<lambda>j. if j \<in> set rest then fst (event t cur ?hp j) else ?hp ! j) [0..<length ?hp])"
    then have k: "k < length hp" by simp
    show "map (\<lambda>j. if j \<in> set rest then fst (event t cur ?hp j) else ?hp ! j) [0..<length ?hp] ! k
        = map (\<lambda>j. if j \<in> set (i # rest) then fst (event t cur hp j) else hp ! j) [0..<length hp] ! k"
    proof (cases "k = i")
      case True
      then show ?thesis using k inot evi by simp
    next
      case False
      then show ?thesis using k evsame[of k] by simp
    qed
  qed
  have f: "\<And>l'. filter (\<lambda>j. left_neighbor (?hp ! j) = Some l') rest
               = filter (\<lambda>j. left_neighbor (hp ! j) = Some l') rest"
    by (rule filter_cong) (simp_all add: same)
  have c: "\<And>l'. map (\<lambda>j. snd (event t cur ?hp j)) (filter (\<lambda>j. left_neighbor (hp ! j) = Some l') rest)
              = map (\<lambda>j. snd (event t cur hp j)) (filter (\<lambda>j. left_neighbor (hp ! j) = Some l') rest)"
    by (rule map_cong) (simp_all add: evsame)
  have m: "(\<lambda>l'. map_option (\<lambda>q. q @ concat (map (\<lambda>j. snd (event t cur ?hp j))
                    (filter (\<lambda>j. left_neighbor (?hp ! j) = Some l') rest))) (?msgs l'))
         = (\<lambda>l'. map_option (\<lambda>q. q @ concat (map (\<lambda>j. snd (event t cur hp j))
                    (filter (\<lambda>j. left_neighbor (hp ! j) = Some l') (i # rest)))) (msgs l'))"
  proof (rule ext)
    fix l'
    show "map_option (\<lambda>q. q @ concat (map (\<lambda>j. snd (event t cur ?hp j))
                    (filter (\<lambda>j. left_neighbor (?hp ! j) = Some l') rest))) (?msgs l')
        = map_option (\<lambda>q. q @ concat (map (\<lambda>j. snd (event t cur hp j))
                    (filter (\<lambda>j. left_neighbor (hp ! j) = Some l') (i # rest)))) (msgs l')"
      unfolding f c
    proof (cases "l' = l")
      case True
      then show "map_option (\<lambda>q. q @ concat (map (\<lambda>j. snd (event t cur hp j))
                    (filter (\<lambda>j. left_neighbor (hp ! j) = Some l') rest))) (?msgs l')
        = map_option (\<lambda>q. q @ concat (map (\<lambda>j. snd (event t cur hp j))
                    (filter (\<lambda>j. left_neighbor (hp ! j) = Some l') (i # rest)))) (msgs l')"
        using l q evi by simp
    next
      case False
      then show "map_option (\<lambda>q. q @ concat (map (\<lambda>j. snd (event t cur hp j))
                    (filter (\<lambda>j. left_neighbor (hp ! j) = Some l') rest))) (?msgs l')
        = map_option (\<lambda>q. q @ concat (map (\<lambda>j. snd (event t cur hp j))
                    (filter (\<lambda>j. left_neighbor (hp ! j) = Some l') (i # rest)))) (msgs l')"
        using l by simp
    qed
  qed
  have a: "(?act \<or> (\<exists>j\<in>set rest. snd (event t cur ?hp j) \<noteq> [] \<or> waiting (fst (event t cur ?hp j)) \<noteq> []))
         = (act \<or> (\<exists>j\<in>set (i # rest). snd (event t cur hp j) \<noteq> [] \<or> waiting (fst (event t cur hp j)) \<noteq> []))"
    using evsame evi by auto
  show ?case unfolding step IH h m a ..
qed

section \<open>A round on a ring, in closed form\<close>

lemma ring_pred_succ:
  assumes "i < N" "l < N"
  shows "((i + N - 1) mod N = l) = (i = (l + 1) mod (N::nat))"
proof (cases "i = 0")
  case True
  then have "(i + N - 1) mod N = N - 1" using assms by simp
  moreover have "((l + 1) mod N = 0) = (l = N - 1)"
    using assms by (cases "Suc l = N") auto
  ultimately show ?thesis using True by auto
next
  case False
  then obtain j where j: "i = Suc j" by (cases i) auto
  have e: "(i + N - 1) mod N = i - 1" using assms unfolding j by simp
  show ?thesis
  proof (cases "Suc l = N")
    case True
    then show ?thesis using e False assms by auto
  next
    case False
    then have "(l + 1) mod N = Suc l" using assms by simp
    then show ?thesis using e \<open>i \<noteq> 0\<close> by auto
  qed
qed

lemma filter_unique:
  assumes "distinct ns" "x \<in> set ns" "\<And>y. y \<in> set ns \<Longrightarrow> P y = (y = x)"
  shows "filter P ns = [x]"
  using assms
proof (induction ns)
  case Nil
  then show ?case by simp
next
  case (Cons a ns)
  show ?case
  proof (cases "a = x")
    case True
    then have "x \<notin> set ns" using Cons.prems by simp
    then have "filter P ns = []" using Cons.prems(3) by (auto simp: filter_empty_conv)
    then show ?thesis using True Cons.prems(3)[of a] by simp
  next
    case False
    then have "x \<in> set ns" using Cons.prems by simp
    then have "filter P ns = [x]" using Cons.IH Cons.prems by simp
    then show ?thesis using False Cons.prems(3)[of a] by simp
  qed
qed

lemma ring_senders:
  assumes "ring g" "l < length (heap g)"
  shows "filter (\<lambda>i. left_neighbor (heap g ! i) = Some l) (nodes g) = [(l + 1) mod length (heap g)]"
proof (rule filter_unique)
  show "distinct (nodes g)" using assms by (simp add: ring_def)
  have "0 < length (heap g)" using assms(2) by auto
  then have "(l + 1) mod length (heap g) < length (heap g)" by (rule mod_less_divisor)
  then show "(l + 1) mod length (heap g) \<in> set (nodes g)" using assms by (simp add: ring_def)
  fix y assume "y \<in> set (nodes g)"
  then have y: "y < length (heap g)" using assms by (simp add: ring_def)
  then have "left_neighbor (heap g ! y) = Some ((y + length (heap g) - 1) mod length (heap g))"
    using assms by (simp add: ring_def)
  then show "(left_neighbor (heap g ! y) = Some l) = (y = (l + 1) mod length (heap g))"
    using ring_pred_succ[OF y assms(2)] by simp
qed

lemma process_round_ring:
  assumes "ring g"
  shows "process_round g = Inr (round_activity g, g\<lparr>heap := round_heap g, messages := round_messages g\<rparr>)"
proof -
  let ?N = "length (heap g)"
  let ?m0 = "\<lambda>i. if i \<in> set (nodes g) then Some ([] :: message list) else None"
  have d: "distinct (nodes g)" and s: "set (nodes g) = {..<?N}" using assms by (simp_all add: ring_def)
  have p2: "\<forall>i\<in>set (nodes g). i < ?N \<and> messages g i \<noteq> None" using assms by (simp add: ring_def)
  have p3: "\<forall>i\<in>set (nodes g). \<exists>l. left_neighbor (heap g ! i) = Some l \<and> ?m0 l \<noteq> None"
  proof
    fix i assume "i \<in> set (nodes g)"
    then have i: "i < ?N" using s by simp
    then have "left_neighbor (heap g ! i) = Some ((i + ?N - 1) mod ?N)" using assms by (simp add: ring_def)
    moreover have "0 < ?N" using i by auto
    then have "(i + ?N - 1) mod ?N < ?N" by (rule mod_less_divisor)
    ultimately show "\<exists>l. left_neighbor (heap g ! i) = Some l \<and> ?m0 l \<noteq> None" using s by simp
  qed
  note c = process_nodes_closed[OF d p2 p3, of "now g" False]
  have h: "map (\<lambda>i. if i \<in> set (nodes g) then fst (event (now g) (messages g) (heap g) i) else heap g ! i) [0..<?N]
         = round_heap g"
    unfolding round_heap_def using s by (intro map_cong) auto
  have m: "(\<lambda>l. map_option (\<lambda>q. q @ concat (map (\<lambda>i. snd (event (now g) (messages g) (heap g) i))
                    (filter (\<lambda>i. left_neighbor (heap g ! i) = Some l) (nodes g)))) (?m0 l))
         = round_messages g"
  proof (rule ext)
    fix l
    show "map_option (\<lambda>q. q @ concat (map (\<lambda>i. snd (event (now g) (messages g) (heap g) i))
                    (filter (\<lambda>i. left_neighbor (heap g ! i) = Some l) (nodes g)))) (?m0 l)
        = round_messages g l"
    proof (cases "l < ?N")
      case True
      then show ?thesis using ring_senders[OF assms True] s by (simp add: round_messages_def)
    next
      case False
      then show ?thesis using s by (simp add: round_messages_def)
    qed
  qed
  have a: "(False \<or> (\<exists>i\<in>set (nodes g). snd (event (now g) (messages g) (heap g) i) \<noteq> []
              \<or> waiting (fst (event (now g) (messages g) (heap g) i)) \<noteq> [])) = round_activity g"
    unfolding round_activity_def using s by auto
  show ?thesis unfolding process_round_def c h m a by simp
qed

section \<open>The states that the scheduler reaches\<close>

lemma advance_simps:
  "now (advance g) = now g + 1" "max_rounds (advance g) = max_rounds g"
  "nodes (advance g) = nodes g" "length (heap (advance g)) = length (heap g)"
  by (simp_all add: advance_def round_heap_def)

lemma heap_advance:
  "i < length (heap g) \<Longrightarrow> heap (advance g) ! i = fst (event (now g) (messages g) (heap g) i)"
  by (simp add: advance_def round_heap_def)

lemma messages_advance:
  "l < length (heap g) \<Longrightarrow>
     messages (advance g) l = Some (snd (event (now g) (messages g) (heap g) ((l + 1) mod length (heap g))))"
  by (simp add: advance_def round_messages_def)

lemma event_frame:
  "ident (fst (event t cur hp i)) = ident (hp ! i) \<and>
   left_neighbor (fst (event t cur hp i)) = left_neighbor (hp ! i) \<and>
   right_neighbor (fst (event t cur hp i)) = right_neighbor (hp ! i)"
  by (simp add: event_def node_event_frame)

lemma ring_advance: "ring g \<Longrightarrow> ring (advance g)"
  unfolding ring_def advance_simps
  by (simp add: heap_advance messages_advance event_frame)

lemma turn_advance:
  assumes "ring g"
  shows "process_round g = Inr (a, g') \<longleftrightarrow> a = round_activity g \<and> g' = g\<lparr>heap := round_heap g, messages := round_messages g\<rparr>"
  using process_round_ring[OF assms] by auto

lemma turn_advance_now:
  assumes "ring g" "process_round g = Inr (a, g')"
  shows "g'\<lparr>now := now g' + 1\<rparr> = advance g"
  using assms by (simp add: turn_advance advance_def)

lemma reachable_ring:
  assumes "reachable g0 s" "ring g0"
  shows "ring (snd s) \<and> max_rounds (snd s) = max_rounds g0 \<and> length (heap (snd s)) = length (heap g0)"
  using assms
proof (induction rule: reachable.induct)
  case start
  then show ?case by simp
next
  case (turn g cap a g')
  then have r: "ring g" by simp
  have "g'\<lparr>now := now g' + 1\<rparr> = advance g" using turn_advance_now[OF r turn.hyps(4)] .
  then show ?case using turn r by (simp add: ring_advance advance_simps)
qed

lemma reachable_invariant:
  assumes "reachable g0 s" "ring g0" "P g0"
    and "\<And>g. ring g \<Longrightarrow> length (heap g) = length (heap g0) \<Longrightarrow> P g \<Longrightarrow> P (advance g)"
  shows "P (snd s)"
  using assms(1)
proof (induction rule: reachable.induct)
  case start
  show ?case using assms(3) by simp
next
  case (turn g cap a g')
  have r: "ring g \<and> max_rounds g = max_rounds g0 \<and> length (heap g) = length (heap g0)"
    using reachable_ring[OF turn.hyps(1) assms(2)] by simp
  have "g'\<lparr>now := now g' + 1\<rparr> = advance g" using turn_advance_now[OF _ turn.hyps(4)] r by simp
  then show ?case using assms(4)[of g] r turn.IH by simp
qed

lemma round_process_reachable:
  assumes "ring g0" "max_rounds g0 = Some cap" "reachable g0 (a, g)"
  shows "\<exists>a' g'. round_process a g = Inr (a', g') \<and> reachable g0 (a', g') \<and> (\<not> a' \<or> cap \<le> now g')"
  using assms(3)
proof (induction a g rule: round_process.induct)
  case (1 activity g)
  have r: "ring g" and m: "max_rounds g = Some cap"
    using reachable_ring[OF 1(2) assms(1)] assms(2) by simp_all
  show ?case
  proof (cases "activity \<and> now g < cap")
    case True
    let ?g' = "g\<lparr>heap := round_heap g, messages := round_messages g\<rparr>"
    have pr: "process_round g = Inr (round_activity g, ?g')" using process_round_ring[OF r] .
    have "reachable g0 (round_activity g, ?g'\<lparr>now := now ?g' + 1\<rparr>)"
      using reachable.turn[OF _ m _ pr] True 1(2) by simp
    from 1(1)[OF _ m _ pr _ this] True
    have "\<exists>a' g'. round_process (round_activity g) (?g'\<lparr>now := now ?g' + 1\<rparr>) = Inr (a', g')
            \<and> reachable g0 (a', g') \<and> (\<not> a' \<or> cap \<le> now g')"
      by simp
    moreover have "round_process activity g = round_process (round_activity g) (?g'\<lparr>now := now ?g' + 1\<rparr>)"
      using True m pr by (subst round_process.simps) simp
    ultimately show ?thesis by simp
  next
    case False
    then have "round_process activity g = Inr (activity, g)"
      using m by (subst round_process.simps) auto
    then show ?thesis using False 1(2) by auto
  qed
qed

lemma ring_make_ring: "ring (make_ring ids)"
  unfolding ring_def make_ring_def Graph_def
  by (simp add: length_link_ring link_ring_nth lessThan_atLeast0)

lemma heap_make_ring:
  "length (heap (make_ring ids)) = length ids"
  "i < length ids \<Longrightarrow> heap (make_ring ids) ! i =
     (Node (ids ! i))\<lparr>left_neighbor := Some ((i + length ids - 1) mod length ids),
                     right_neighbor := Some ((i + 1) mod length ids)\<rparr>"
  by (simp_all add: make_ring_def Graph_def length_link_ring link_ring_nth)

lemma fresh_make_ring: "fresh (make_ring ids)"
  unfolding fresh_def by (simp add: heap_make_ring Node_def) (simp add: make_ring_def Graph_def length_link_ring)

lemma setup_simps:
  "heap (election_setup cap init g) = heap g" "messages (election_setup cap init g) = messages g"
  "now (election_setup cap init g) = now g" "max_rounds (election_setup cap init g) = Some cap"
  by (simp_all add: election_setup_def)

lemma ring_setup: "ring g \<Longrightarrow> ring (election_setup cap init g)"
  unfolding ring_def setup_simps by (auto simp: election_setup_def)

lemma fresh_setup: "fresh g \<Longrightarrow> fresh (election_setup cap init g)"
  unfolding fresh_def setup_simps .

lemma round_process_now:
  "round_process a g = Inr (a', g') \<Longrightarrow> now g \<le> now g'"
proof (induction a g rule: round_process.induct)
  case (1 activity g)
  show ?case
  proof (cases "activity")
    case False
    then show ?thesis using 1(2) by (subst (asm) round_process.simps) simp
  next
    case True
    then obtain cap where m: "max_rounds g = Some cap"
      using 1(2) by (subst (asm) round_process.simps) (auto split: option.splits)
    show ?thesis
    proof (cases "now g < cap")
      case False
      then show ?thesis using 1(2) True m by (subst (asm) round_process.simps) simp
    next
      case lt: True
      then obtain a1 g1 where pr: "process_round g = Inr (a1, g1)"
        using 1(2) True m by (subst (asm) round_process.simps) (auto split: sum.splits)
      then have eq: "round_process a1 (g1\<lparr>now := now g1 + 1\<rparr>) = Inr (a', g')"
        using 1(2) True m lt by (subst (asm) round_process.simps) simp
      have "now g1 = now g" using pr by (auto simp: process_round_def split: sum.splits)
      then show ?thesis using 1(1)[OF True m lt pr _ eq] by simp
    qed
  qed
qed

section \<open>Comparisons at a node that is awake\<close>

lemma compare_known:
  assumes "min_val n = Known v" "status n \<noteq> Relay"
  shows "compare_msg t (n, S) (m, h) =
     (if m < v then n\<lparr>status := NotElected, min_val := Known m, waiting := waiting n @ [(m, 2, t)]\<rparr>
      else if m = ident n then n\<lparr>status := Elected, is_leader := True\<rparr> else n, S)"
  using assms by (simp add: Let_def)

lemma awake_compare:
  assumes "awake_node n"
  shows "awake_node (fst (compare_msg t (n, S) x)) \<and> snd (compare_msg t (n, S) x) = S"
proof -
  obtain v where v: "min_val n = Known v" using assms by (auto simp: awake_node_def)
  have r: "status n \<noteq> Relay" using assms by (simp add: awake_node_def)
  obtain m h where x: "x = (m, h)" by (cases x)
  show ?thesis unfolding x compare_known[OF v r] using assms by (simp add: awake_node_def)
qed

lemma foldl_compare_Cons:
  "awake_node n \<Longrightarrow>
   foldl (compare_msg t) (n, S) (x # R) = foldl (compare_msg t) (fst (compare_msg t (n, S) x), S) R"
  using awake_compare[of n t S x] by (cases "compare_msg t (n, S) x") simp

lemma awake_foldl:
  "awake_node n \<Longrightarrow> awake_node (fst (foldl (compare_msg t) (n, S) R)) \<and> snd (foldl (compare_msg t) (n, S) R) = S"
proof (induction R arbitrary: n)
  case Nil
  then show ?case by simp
next
  case (Cons x R)
  show ?case unfolding foldl_compare_Cons[OF Cons.prems]
    by (rule Cons.IH) (simp add: awake_compare[OF Cons.prems])
qed

lemma compared_Nil: "compared t [] n = n"
  by (simp add: compared_def)

lemma compared_Cons:
  "awake_node n \<Longrightarrow> compared t (x # R) n = compared t R (fst (compare_msg t (n, []) x))"
  by (simp only: compared_def foldl_compare_Cons)

lemma awake_compared: "awake_node n \<Longrightarrow> awake_node (compared t R n)"
  by (simp add: compared_def awake_foldl)

lemma node_event_awake:
  assumes "awake_node n"
  shows "node_event t R n =
     ((compared t R n)\<lparr>waiting := filter (\<lambda>e. \<not> due t e) (waiting (compared t R n))\<rparr>,
      map strip (filter (due t) (waiting (compared t R n))))"
proof -
  have a: "activate R n = (n, [])" using assms by (simp add: activate_def awake_node_def)
  have "foldl (compare_msg t) (n, []) R = (compared t R n, [])"
    using awake_foldl[OF assms, of t "[]" R] by (simp add: compared_def prod_eq_iff)
  then show ?thesis by (simp add: node_event_def a release_filter)
qed

lemma node_event_asleep:
  assumes "status n = Asleep"
  shows "node_event t [] n =
     (n\<lparr>status := Participating, min_val := Known (ident n),
        waiting := filter (\<lambda>e. \<not> due t e) (waiting n)\<rparr>,
      (ident n, 1) # map strip (filter (due t) (waiting n)))"
  using assms by (simp add: node_event_def activate_def release_filter)

text \<open>What one comparison does to an awake node, field by field.\<close>

lemma step_fields:
  assumes "awake_node n" "min_val n = Known v"
  shows "min_val (fst (compare_msg t (n, S) (m, h))) = Known (if m < v then m else v)"
    and "waiting (fst (compare_msg t (n, S) (m, h))) = (if m < v then waiting n @ [(m, 2, t)] else waiting n)"
    and "status (fst (compare_msg t (n, S) (m, h))) =
           (if m < v then NotElected else if m = ident n then Elected else status n)"
    and "is_leader (fst (compare_msg t (n, S) (m, h))) = (is_leader n \<or> (\<not> m < v \<and> m = ident n))"
    and "ident (fst (compare_msg t (n, S) (m, h))) = ident n"
  using assms by (simp_all add: awake_node_def Let_def)

lemma compared_min:
  assumes "awake_node n" "min_val n = Known v"
  shows "\<exists>v'. min_val (compared t R n) = Known v' \<and> v' \<le> v \<and> (v' = v \<or> (\<exists>h. (v', h) \<in> set R))
            \<and> (\<forall>(m, h) \<in> set R. v' \<le> m)"
  using assms
proof (induction R arbitrary: n v)
  case Nil
  then show ?case by (simp add: compared_Nil)
next
  case (Cons x R)
  obtain m h where x: "x = (m, h)" by (cases x)
  define n1 where "n1 = fst (compare_msg t (n, []) x)"
  have c: "compared t (x # R) n = compared t R n1"
    unfolding n1_def by (rule compared_Cons[OF Cons.prems(1)])
  let ?v = "if m < v then m else v"
  have a: "awake_node n1" unfolding n1_def using awake_compare[OF Cons.prems(1)] by simp
  have mv: "min_val n1 = Known ?v" unfolding n1_def x using step_fields(1)[OF Cons.prems] .
  obtain v' where v': "min_val (compared t R n1) = Known v'" "v' \<le> ?v"
      "v' = ?v \<or> (\<exists>h. (v', h) \<in> set R)" "\<forall>(m, h) \<in> set R. v' \<le> m"
    using Cons.IH[OF a mv] by blast
  have "v' \<le> v" using v'(2) by (simp split: if_splits)
  moreover have "v' = v \<or> (\<exists>h. (v', h) \<in> set (x # R))" using v'(3) x by (auto split: if_splits)
  moreover have "\<forall>(m, h) \<in> set (x # R). v' \<le> m" using v'(2,4) x by (auto split: if_splits)
  ultimately show ?case using v'(1) by (simp add: c)
qed

lemma compared_status:
  assumes "awake_node n" "min_val n = Known v"
  shows "status (compared t R n) = status n
       \<or> (status (compared t R n) = NotElected \<and> (\<exists>(m, h) \<in> set R. m < v))
       \<or> (status (compared t R n) = Elected \<and> (\<exists>h. (ident n, h) \<in> set R))"
  using assms
proof (induction R arbitrary: n v)
  case Nil
  then show ?case by (simp add: compared_Nil)
next
  case (Cons x R)
  obtain m h where x: "x = (m, h)" by (cases x)
  define n1 where "n1 = fst (compare_msg t (n, []) x)"
  have c: "compared t (x # R) n = compared t R n1"
    unfolding n1_def by (rule compared_Cons[OF Cons.prems(1)])
  let ?v = "if m < v then m else v"
  have a: "awake_node n1" unfolding n1_def using awake_compare[OF Cons.prems(1)] by simp
  have mv: "min_val n1 = Known ?v" unfolding n1_def x using step_fields(1)[OF Cons.prems] .
  have st: "status n1 = (if m < v then NotElected else if m = ident n then Elected else status n)"
    unfolding n1_def x using step_fields(3)[OF Cons.prems] .
  have id: "ident n1 = ident n" unfolding n1_def x using step_fields(5)[OF Cons.prems] .
  note IH = Cons.IH[OF a mv, unfolded id]
  have goal: "status (compared t R n1) = status n
       \<or> (status (compared t R n1) = NotElected \<and> (\<exists>(m, h) \<in> set (x # R). m < v))
       \<or> (status (compared t R n1) = Elected \<and> (\<exists>h. (ident n, h) \<in> set (x # R)))"
    using IH
  proof (elim disjE)
    assume "status (compared t R n1) = status n1"
    then show ?thesis using st x by (auto split: if_splits)
  next
    assume "status (compared t R n1) = NotElected \<and> (\<exists>(m, h) \<in> set R. m < ?v)"
    then show ?thesis using x by (auto split: if_splits)
  next
    assume "status (compared t R n1) = Elected \<and> (\<exists>h. (ident n, h) \<in> set R)"
    then show ?thesis by auto
  qed
  show ?case unfolding c by (rule goal)
qed

lemma compared_leader:
  assumes "awake_node n"
  shows "(is_leader n \<longrightarrow> is_leader (compared t R n))
       \<and> (is_leader (compared t R n) \<longrightarrow> is_leader n \<or> (\<exists>h. (ident n, h) \<in> set R))"
  using assms
proof (induction R arbitrary: n)
  case Nil
  then show ?case by (simp add: compared_Nil)
next
  case (Cons x R)
  obtain m h where x: "x = (m, h)" by (cases x)
  obtain v where v: "min_val n = Known v" using Cons.prems by (auto simp: awake_node_def)
  define n1 where "n1 = fst (compare_msg t (n, []) x)"
  have c: "compared t (x # R) n = compared t R n1"
    unfolding n1_def by (rule compared_Cons[OF Cons.prems(1)])
  have a: "awake_node n1" unfolding n1_def using awake_compare[OF Cons.prems(1)] by simp
  have l: "is_leader n1 = (is_leader n \<or> (\<not> m < v \<and> m = ident n))"
    unfolding n1_def x using step_fields(4)[OF Cons.prems v] .
  have id: "ident n1 = ident n" unfolding n1_def x using step_fields(5)[OF Cons.prems v] .
  note IH = Cons.IH[OF a, unfolded id]
  show ?case unfolding c using IH l x by auto
qed

lemma compared_waiting:
  assumes "awake_node n" "min_val n = Known v"
  shows "\<exists>W. waiting (compared t R n) = waiting n @ W
            \<and> (\<forall>e \<in> set W. \<exists>m h. e = (m, 2, t) \<and> (m, h) \<in> set R \<and> m < v)"
  using assms
proof (induction R arbitrary: n v)
  case Nil
  then show ?case by (simp add: compared_Nil)
next
  case (Cons x R)
  obtain m h where x: "x = (m, h)" by (cases x)
  define n1 where "n1 = fst (compare_msg t (n, []) x)"
  have c: "compared t (x # R) n = compared t R n1"
    unfolding n1_def by (rule compared_Cons[OF Cons.prems(1)])
  let ?v = "if m < v then m else v"
  have a: "awake_node n1" unfolding n1_def using awake_compare[OF Cons.prems(1)] by simp
  have mv: "min_val n1 = Known ?v" unfolding n1_def x using step_fields(1)[OF Cons.prems] .
  have w: "waiting n1 = (if m < v then waiting n @ [(m, 2, t)] else waiting n)"
    unfolding n1_def x using step_fields(2)[OF Cons.prems] .
  obtain W where W: "waiting (compared t R n1) = waiting n1 @ W"
      "\<forall>e \<in> set W. \<exists>m' h'. e = (m', 2, t) \<and> (m', h') \<in> set R \<and> m' < ?v"
    using Cons.IH[OF a mv] by blast
  let ?W = "(if m < v then [(m, 2, t)] else []) @ W"
  have "waiting (compared t (x # R) n) = waiting n @ ?W"
    using W(1) w by (simp add: c)
  moreover have "\<forall>e \<in> set ?W. \<exists>m' h'. e = (m', 2, t) \<and> (m', h') \<in> set (x # R) \<and> m' < v"
  proof
    fix e assume "e \<in> set ?W"
    then consider "m < v" "e = (m, 2, t)" | "e \<in> set W" by (auto split: if_splits)
    then show "\<exists>m' h'. e = (m', 2, t) \<and> (m', h') \<in> set (x # R) \<and> m' < v"
    proof cases
      case 1
      then show ?thesis using x by auto
    next
      case 2
      then obtain m' h' where "e = (m', 2, t)" "(m', h') \<in> set R" "m' < ?v" using W(2) by blast
      then show ?thesis by (auto split: if_splits)
    qed
  qed
  ultimately show ?case by blast
qed

text \<open>The node with the smallest identifier is elected by its own identifier.\<close>

lemma compared_elected:
  assumes "awake_node n" "min_val n = Known v" "\<forall>(m, h) \<in> set R. \<not> m < v"
    and "(\<exists>h. (ident n, h) \<in> set R) \<or> (status n = Elected \<and> is_leader n)"
  shows "status (compared t R n) = Elected \<and> is_leader (compared t R n)"
  using assms
proof (induction R arbitrary: n)
  case Nil
  then show ?case by (simp add: compared_Nil)
next
  case (Cons x R)
  obtain m h where x: "x = (m, h)" by (cases x)
  define n1 where "n1 = fst (compare_msg t (n, []) x)"
  have c: "compared t (x # R) n = compared t R n1"
    unfolding n1_def by (rule compared_Cons[OF Cons.prems(1)])
  have nl: "\<not> m < v" using Cons.prems(3) x by auto
  have a: "awake_node n1" unfolding n1_def using awake_compare[OF Cons.prems(1)] by simp
  have "min_val n1 = Known (if m < v then m else v)"
    unfolding n1_def x by (rule step_fields(1)[OF Cons.prems(1,2)])
  then have mv: "min_val n1 = Known v" using nl by simp
  have "status n1 = (if m < v then NotElected else if m = ident n then Elected else status n)"
    unfolding n1_def x by (rule step_fields(3)[OF Cons.prems(1,2)])
  then have st: "status n1 = (if m = ident n then Elected else status n)" using nl by simp
  have "is_leader n1 = (is_leader n \<or> (\<not> m < v \<and> m = ident n))"
    unfolding n1_def x by (rule step_fields(4)[OF Cons.prems(1,2)])
  then have l: "is_leader n1 = (is_leader n \<or> m = ident n)" using nl by simp
  have id: "ident n1 = ident n" unfolding n1_def x using step_fields(5)[OF Cons.prems(1,2)] .
  have r: "\<forall>(m, h) \<in> set R. \<not> m < v" using Cons.prems(3) by auto
  have "(\<exists>h. (ident n1, h) \<in> set R) \<or> (status n1 = Elected \<and> is_leader n1)"
    using Cons.prems(4) x st l id by auto
  from Cons.IH[OF a mv r this] show ?case by (simp add: c)
qed

text \<open>The smallest value received, if it is below the known minimum, is queued.\<close>

lemma compared_queues_least:
  assumes "awake_node n" "min_val n = Known v" "\<forall>(m', h') \<in> set R. m \<le> m'"
    and "((\<exists>h. (m, h) \<in> set R) \<and> m < v) \<or> (m, 2, t) \<in> set (waiting n)"
  shows "(m, 2, t) \<in> set (waiting (compared t R n))"
  using assms
proof (induction R arbitrary: n v)
  case Nil
  then show ?case by (simp add: compared_Nil)
next
  case (Cons x R)
  obtain m1 h1 where x: "x = (m1, h1)" by (cases x)
  define n1 where "n1 = fst (compare_msg t (n, []) x)"
  have c: "compared t (x # R) n = compared t R n1"
    unfolding n1_def by (rule compared_Cons[OF Cons.prems(1)])
  let ?v = "if m1 < v then m1 else v"
  have a: "awake_node n1" unfolding n1_def using awake_compare[OF Cons.prems(1)] by simp
  have mv: "min_val n1 = Known ?v" unfolding n1_def x using step_fields(1)[OF Cons.prems(1,2)] .
  have w: "waiting n1 = (if m1 < v then waiting n @ [(m1, 2, t)] else waiting n)"
    unfolding n1_def x using step_fields(2)[OF Cons.prems(1,2)] .
  have le: "m \<le> m1" and r: "\<forall>(m', h') \<in> set R. m \<le> m'" using Cons.prems(3) x by auto
  have "((\<exists>h. (m, h) \<in> set R) \<and> m < ?v) \<or> (m, 2, t) \<in> set (waiting n1)"
  proof (cases "(m, 2, t) \<in> set (waiting n)")
    case True
    then show ?thesis using w by simp
  next
    case False
    then have in_R: "\<exists>h. (m, h) \<in> set (x # R)" and lt: "m < v" using Cons.prems(4) by auto
    show ?thesis
    proof (cases "m1 = m")
      case True
      then show ?thesis using w lt by simp
    next
      case False
      then have "\<exists>h. (m, h) \<in> set R" using in_R x by auto
      moreover have "m < ?v" using lt le False by simp
      ultimately show ?thesis by simp
    qed
  qed
  from Cons.IH[OF a mv r this] show ?case by (simp add: c)
qed

section \<open>Waiting entries and the two phases of an election\<close>

lemma waiting_activate: "waiting (fst (activate R n)) = waiting n"
  by (simp add: activate_def)

lemma waiting_compare_msg:
  "\<exists>W. waiting (fst (compare_msg t st x)) = waiting (fst st) @ W \<and> (\<forall>e \<in> set W. \<exists>m. e = (m, 2, t))"
  by (cases st; cases x) (simp add: Let_def)

lemma waiting_foldl:
  "\<exists>W. waiting (fst (foldl (compare_msg t) st R)) = waiting (fst st) @ W \<and> (\<forall>e \<in> set W. \<exists>m. e = (m, 2, t))"
proof (induction R arbitrary: st)
  case Nil
  show ?case by simp
next
  case (Cons x R)
  obtain W1 where W1: "waiting (fst (compare_msg t st x)) = waiting (fst st) @ W1"
      "\<forall>e \<in> set W1. \<exists>m. e = (m, 2, t)"
    using waiting_compare_msg[of t st x] by blast
  obtain W2 where W2: "waiting (fst (foldl (compare_msg t) (compare_msg t st x) R))
        = waiting (fst (compare_msg t st x)) @ W2" "\<forall>e \<in> set W2. \<exists>m. e = (m, 2, t)"
    using Cons.IH[of "compare_msg t st x"] by blast
  have "waiting (fst (foldl (compare_msg t) st (x # R))) = waiting (fst st) @ (W1 @ W2)"
    using W1(1) W2(1) by simp
  moreover have "\<forall>e \<in> set (W1 @ W2). \<exists>m. e = (m, 2, t)" using W1(2) W2(2) by auto
  ultimately show ?case by blast
qed

lemma node_event_parts:
  "node_event t R n =
     ((fst (foldl (compare_msg t) (activate R n) R))
        \<lparr>waiting := filter (\<lambda>e. \<not> due t e) (waiting (fst (foldl (compare_msg t) (activate R n) R)))\<rparr>,
      snd (foldl (compare_msg t) (activate R n) R)
        @ map strip (filter (due t) (waiting (fst (foldl (compare_msg t) (activate R n) R)))))"
  by (simp add: node_event_def split_beta release_filter)

text \<open>The entries that a node holds after its comparisons in round \<open>t\<close>.\<close>

lemma compared_entries:
  assumes "\<forall>(m, h, stored_time) \<in> set (waiting n). h = 2 \<and> stored_time < t \<and> \<not> due (t - 1) (m, h, stored_time)"
    and "(m, h, stored_time) \<in> set (waiting (fst (foldl (compare_msg t) (activate R n) R)))"
  shows "h = 2 \<and> stored_time \<le> t \<and> t \<le> stored_time + 2 ^ m - 1
       \<and> (due t (m, h, stored_time) \<longleftrightarrow> t = stored_time + 2 ^ m - 1)"
proof -
  obtain W where W: "waiting (fst (foldl (compare_msg t) (activate R n) R)) = waiting n @ W"
      "\<forall>e \<in> set W. \<exists>m. e = (m, 2, t)"
    using waiting_foldl[of t "activate R n" R] by (auto simp: waiting_activate)
  from assms(2) W(1) consider "(m, h, stored_time) \<in> set (waiting n)" | "(m, h, stored_time) \<in> set W"
    by auto
  then show ?thesis
  proof cases
    case 1
    then have "h = 2 \<and> stored_time < t \<and> \<not> due (t - 1) (m, h, stored_time)" using assms(1) by auto
    then show ?thesis by (auto simp: due_def)
  next
    case 2
    then have h: "h = 2" and st: "stored_time = t" using W(2) by auto
    define x where "x = (2::int) ^ m"
    have "(1::int) \<le> x" by (simp add: x_def)
    then have "t \<le> t + x - 1 \<and> ((x - 1 \<le> t - t) = (t = t + x - 1))" by auto
    then have "t \<le> t + 2 ^ m - 1 \<and> ((2 ^ m - 1 \<le> t - t) = (t = t + 2 ^ m - 1))"
      by (simp only: x_def)
    then show ?thesis unfolding h st due_def by simp
  qed
qed

lemma timed_advance:
  assumes "ring g" "timed g"
  shows "timed (advance g)"
  unfolding timed_def advance_simps
proof (intro allI impI ballI)
  fix i e assume i: "i < length (heap g)" and e: "e \<in> set (waiting (heap (advance g) ! i))"
  obtain m h stored_time where eq: "e = (m, h, stored_time)" by (cases e)
  let ?R = "the (messages g i)"
  let ?n1 = "fst (foldl (compare_msg (now g)) (activate ?R (heap g ! i)) ?R)"
  have "heap (advance g) ! i = fst (node_event (now g) ?R (heap g ! i))"
    using heap_advance[OF i] by (simp add: event_def)
  then have w: "waiting (heap (advance g) ! i) = filter (\<lambda>e. \<not> due (now g) e) (waiting ?n1)"
    by (simp add: node_event_parts)
  have old: "\<forall>(m, h, stored_time) \<in> set (waiting (heap g ! i)).
      h = 2 \<and> stored_time < now g \<and> \<not> due (now g - 1) (m, h, stored_time)"
    using assms(2) i by (simp add: timed_def)
  have in1: "(m, h, stored_time) \<in> set (waiting ?n1)" and nd: "\<not> due (now g) (m, h, stored_time)"
    using e w eq by auto
  from compared_entries[OF old in1] nd
  show "case e of (m, h, stored_time) \<Rightarrow>
          h = 2 \<and> stored_time < now g + 1 \<and> \<not> due (now g + 1 - 1) (m, h, stored_time)"
    unfolding eq by simp
qed

lemma fresh_timed: "fresh g \<Longrightarrow> timed g"
  unfolding fresh_def timed_def
proof (intro allI impI)
  fix i assume a: "\<forall>i<length (heap g). heap g ! i = Node (ident (heap g ! i))
        \<lparr>left_neighbor := left_neighbor (heap g ! i), right_neighbor := right_neighbor (heap g ! i)\<rparr>
      \<and> messages g i = Some []" and i: "i < length (heap g)"
  then have "waiting (heap g ! i) = waiting (Node (ident (heap g ! i))
        \<lparr>left_neighbor := left_neighbor (heap g ! i), right_neighbor := right_neighbor (heap g ! i)\<rparr>)"
    by simp
  then have "waiting (heap g ! i) = []" by (simp add: Node_def)
  then show "\<forall>(m, h, stored_time)\<in>set (waiting (heap g ! i)).
       h = 2 \<and> stored_time < now g \<and> \<not> due (now g - 1) (m, h, stored_time)" by simp
qed

lemma fresh_fields:
  assumes "fresh g" "i < length (heap g)"
  shows "status (heap g ! i) = Asleep" "min_val (heap g ! i) = Unset" "waiting (heap g ! i) = []"
    "is_leader (heap g ! i) = False" "messages g i = Some []"
proof -
  let ?n = "Node (ident (heap g ! i))
        \<lparr>left_neighbor := left_neighbor (heap g ! i), right_neighbor := right_neighbor (heap g ! i)\<rparr>"
  have e: "heap g ! i = ?n" and m: "messages g i = Some []" using assms by (simp_all add: fresh_def)
  have "status ?n = Asleep" "min_val ?n = Unset" "waiting ?n = []" "is_leader ?n = False"
    by (simp_all add: Node_def)
  then show "status (heap g ! i) = Asleep" "min_val (heap g ! i) = Unset" "waiting (heap g ! i) = []"
    "is_leader (heap g ! i) = False" using e by simp_all
  show "messages g i = Some []" by (rule m)
qed

lemma event_fresh:
  assumes "fresh g" "i < length (heap g)"
  shows "event (now g) (messages g) (heap g) i =
     ((heap g ! i)\<lparr>status := Participating, min_val := Known (ident (heap g ! i)), waiting := []\<rparr>,
      [(ident (heap g ! i), 1)])"
  using fresh_fields[OF assms] by (simp add: event_def node_event_asleep)

lemma event_running:
  assumes "running g" "i < length (heap g)"
  shows "event (now g) (messages g) (heap g) i =
     ((compared (now g) (the (messages g i)) (heap g ! i))
        \<lparr>waiting := filter (\<lambda>e. \<not> due (now g) e)
                      (waiting (compared (now g) (the (messages g i)) (heap g ! i)))\<rparr>,
      map strip (filter (due (now g)) (waiting (compared (now g) (the (messages g i)) (heap g ! i)))))"
  using assms by (simp add: event_def running_def node_event_awake)

lemma running_advance:
  assumes "fresh g \<or> running g"
  shows "running (advance g)"
  unfolding running_def advance_simps
proof (intro allI impI)
  fix i assume i: "i < length (heap g)"
  from assms show "awake_node (heap (advance g) ! i)"
  proof
    assume "fresh g"
    then show ?thesis using event_fresh[OF _ i] heap_advance[OF i] by (simp add: awake_node_def)
  next
    assume r: "running g"
    then have "awake_node (compared (now g) (the (messages g i)) (heap g ! i))"
      using i by (simp add: running_def awake_compared)
    then show ?thesis using event_running[OF r i] heap_advance[OF i] by (simp add: awake_node_def)
  qed
qed

lemma ident_advance:
  "i < length (heap g) \<Longrightarrow> ident (heap (advance g) ! i) = ident (heap g ! i)"
  by (simp add: heap_advance event_frame)

lemma phase_advance:
  assumes "phase ids g"
  shows "phase ids (advance g)"
proof -
  have "fresh g \<or> running g" using assms by (auto simp: phase_def)
  then have "running (advance g)" by (rule running_advance)
  moreover have "0 < now (advance g)" using assms by (auto simp: phase_def advance_simps)
  ultimately show ?thesis using assms by (simp add: phase_def advance_simps ident_advance)
qed

lemma phase_start: "phase ids (election_setup cap init (make_ring ids))"
  unfolding phase_def setup_simps
  by (simp add: heap_make_ring Node_def fresh_setup fresh_make_ring setup_simps)
     (simp add: make_ring_def Graph_def)

lemma reachable_phase:
  assumes "reachable (election_setup cap init (make_ring ids)) s"
  shows "phase ids (snd s) \<and> ring (snd s) \<and> timed (snd s)"
proof -
  let ?g0 = "election_setup cap init (make_ring ids)"
  have r0: "ring ?g0" by (simp add: ring_setup ring_make_ring)
  have "phase ids (snd s) \<and> timed (snd s)"
  proof (rule reachable_invariant[OF assms r0])
    show "phase ids ?g0 \<and> timed ?g0"
      by (simp add: phase_start fresh_timed fresh_setup fresh_make_ring)
  next
    fix g assume "ring g" "phase ids g \<and> timed g"
    then show "phase ids (advance g) \<and> timed (advance g)"
      by (simp add: phase_advance timed_advance)
  qed
  then show ?thesis using reachable_ring[OF assms r0] by simp
qed

lemma left_then_right:
  assumes "i < N"
  shows "((i + N - 1) mod N + 1) mod N = (i::nat)"
proof -
  have "0 < N" using assms by auto
  then have l: "(i + N - 1) mod N < N" by (rule mod_less_divisor)
  show ?thesis using ring_pred_succ[OF assms l] by simp
qed

lemma round_result:
  assumes "ring g" "process_round g = Inr (a, g')" "i < length (heap g)"
  shows "heap g' ! i = fst (node_event (now g) (the (messages g i)) (heap g ! i))"
    and "messages g' ((i + length (heap g) - 1) mod length (heap g))
           = Some (snd (node_event (now g) (the (messages g i)) (heap g ! i)))"
    and "a = round_activity g" and "g'\<lparr>now := now g' + 1\<rparr> = advance g"
proof -
  have g': "g' = g\<lparr>heap := round_heap g, messages := round_messages g\<rparr>" and a: "a = round_activity g"
    using assms(1,2) by (simp_all add: turn_advance)
  show "heap g' ! i = fst (node_event (now g) (the (messages g i)) (heap g ! i))"
    using assms(3) by (simp add: g' round_heap_def event_def)
  have "0 < length (heap g)" using assms(3) by auto
  then have l: "(i + length (heap g) - 1) mod length (heap g) < length (heap g)"
    by (rule mod_less_divisor)
  show "messages g' ((i + length (heap g) - 1) mod length (heap g))
           = Some (snd (node_event (now g) (the (messages g i)) (heap g ! i)))"
    using l left_then_right[OF assms(3)] by (simp add: g' round_messages_def event_def)
  show "a = round_activity g" by (rule a)
  show "g'\<lparr>now := now g' + 1\<rparr> = advance g" by (rule turn_advance_now[OF assms(1,2)])
qed

lemma reachable_advance:
  assumes "ring g0" "reachable g0 (True, g)" "max_rounds g = Some cap" "now g < cap"
  shows "reachable g0 (round_activity g, advance g)"
proof -
  have r: "ring g" using reachable_ring[OF assms(2,1)] by simp
  have "reachable g0 (round_activity g, (g\<lparr>heap := round_heap g, messages := round_messages g\<rparr>)
      \<lparr>now := now (g\<lparr>heap := round_heap g, messages := round_messages g\<rparr>) + 1\<rparr>)"
    using reachable.turn[OF assms(2,3,4) process_round_ring[OF r]] .
  then show ?thesis by (simp add: advance_def)
qed

section \<open>Positions on the ring\<close>

lemma mod_shift: "a < N \<Longrightarrow> b = a + N \<Longrightarrow> b mod N = (a::nat)"
  by simp

lemma hops_left:
  assumes "j < N" "p < N" "j \<noteq> p"
  shows "hops N p ((j + N - 1) mod N) < hops N p j"
proof (cases "j = 0")
  case True
  then have p: "0 < p" using assms by simp
  have l: "(j + N - 1) mod N = N - 1" using True assms by simp
  have a: "(N - 1 + N - p) mod N = N - 1 - p"
    by (rule mod_shift) (use assms p in arith)+
  have b: "(0 + N - p) mod N = N - p" using assms p by simp
  show ?thesis unfolding hops_def l using a b True assms p by simp
next
  case False
  then obtain i where i: "j = Suc i" by (cases j) auto
  have l: "(j + N - 1) mod N = i" using i assms by simp
  show ?thesis
  proof (cases "p < j")
    case True
    have "(j + N - p) mod N = j - p"
      by (rule mod_shift) (use True i assms in arith)+
    moreover have "(i + N - p) mod N = i - p"
      by (rule mod_shift) (use True i assms in arith)+
    ultimately show ?thesis unfolding hops_def l using True i by simp
  next
    case False
    then have lt: "j < p" using assms by simp
    then have "(j + N - p) mod N = j + N - p" "(i + N - p) mod N = i + N - p" using i assms by simp_all
    then show ?thesis unfolding hops_def l using lt i assms by simp
  qed
qed

lemma chain_left:
  assumes "e < N" "p < N"
  shows "((p + N - e) mod N + N - 1) mod N = (p + N - Suc e) mod N"
proof -
  have "((p + N - e) mod N + N - 1) mod N = ((p + N - e) mod N + (N - 1)) mod N"
    using assms by simp
  also have "\<dots> = ((p + N - e) + (N - 1)) mod N" by (rule mod_add_left_eq)
  also have "(p + N - e) + (N - 1) = (p + N - Suc e) + N" using assms by simp
  also have "((p + N - Suc e) + N) mod N = (p + N - Suc e) mod N" by simp
  finally show ?thesis .
qed

section \<open>A round at a node that is awake\<close>

lemma messages_advance_sent:
  "l < length (heap g) \<Longrightarrow> messages (advance g) l = Some (sent g ((l + 1) mod length (heap g)))"
  by (simp add: messages_advance sent_def)

lemma running_node:
  assumes "running g" "i < length (heap g)"
  shows "heap (advance g) ! i = (compared (now g) (the (messages g i)) (heap g ! i))
            \<lparr>waiting := filter (\<lambda>e. \<not> due (now g) e)
                          (waiting (compared (now g) (the (messages g i)) (heap g ! i)))\<rparr>"
    and "sent g i = map strip (filter (due (now g))
                          (waiting (compared (now g) (the (messages g i)) (heap g ! i))))"
    and "awake_node (heap g ! i)"
  using assms heap_advance[OF assms(2)] event_running[OF assms]
  by (simp_all add: sent_def running_def)

lemma round_min:
  assumes "running g" "i < length (heap g)" "min_val (heap g ! i) = Known v"
  shows "\<exists>v'. min_val (heap (advance g) ! i) = Known v' \<and> v' \<le> v
           \<and> (v' = v \<or> (\<exists>h. (v', h) \<in> set (the (messages g i))))
           \<and> (\<forall>(m, h) \<in> set (the (messages g i)). v' \<le> m)"
  using compared_min[OF running_node(3)[OF assms(1,2)] assms(3), of "now g" "the (messages g i)"]
  by (simp add: running_node(1)[OF assms(1,2)])

lemma round_status:
  assumes "running g" "i < length (heap g)" "min_val (heap g ! i) = Known v"
  shows "status (heap (advance g) ! i) = status (heap g ! i)
       \<or> (status (heap (advance g) ! i) = NotElected \<and> (\<exists>(m, h) \<in> set (the (messages g i)). m < v))
       \<or> (status (heap (advance g) ! i) = Elected \<and> (\<exists>h. (ident (heap g ! i), h) \<in> set (the (messages g i))))"
  using compared_status[OF running_node(3)[OF assms(1,2)] assms(3), of "now g" "the (messages g i)"]
  by (simp add: running_node(1)[OF assms(1,2)])

lemma round_leader:
  assumes "running g" "i < length (heap g)"
  shows "(is_leader (heap g ! i) \<longrightarrow> is_leader (heap (advance g) ! i))
       \<and> (is_leader (heap (advance g) ! i) \<longrightarrow>
            is_leader (heap g ! i) \<or> (\<exists>h. (ident (heap g ! i), h) \<in> set (the (messages g i))))"
  using compared_leader[OF running_node(3)[OF assms(1,2)], of "now g" "the (messages g i)"]
  by (simp add: running_node(1)[OF assms(1,2)])

lemma round_elected:
  assumes "running g" "i < length (heap g)" "min_val (heap g ! i) = Known v"
    and "\<forall>(m, h) \<in> set (the (messages g i)). \<not> m < v"
    and "(\<exists>h. (ident (heap g ! i), h) \<in> set (the (messages g i)))
         \<or> (status (heap g ! i) = Elected \<and> is_leader (heap g ! i))"
  shows "status (heap (advance g) ! i) = Elected \<and> is_leader (heap (advance g) ! i)"
  using compared_elected[OF running_node(3)[OF assms(1,2)] assms(3,4,5), of "now g"]
  by (simp add: running_node(1)[OF assms(1,2)])

text \<open>Where the entries of a round come from, and where they go.\<close>

lemma round_entries:
  assumes "running g" "i < length (heap g)" "min_val (heap g ! i) = Known v"
    and "e \<in> set (waiting (compared (now g) (the (messages g i)) (heap g ! i)))"
  shows "e \<in> set (waiting (heap g ! i))
       \<or> (\<exists>m h. e = (m, 2, now g) \<and> (m, h) \<in> set (the (messages g i)) \<and> m < v)"
proof -
  obtain W where W: "waiting (compared (now g) (the (messages g i)) (heap g ! i)) = waiting (heap g ! i) @ W"
      "\<forall>e \<in> set W. \<exists>m h. e = (m, 2, now g) \<and> (m, h) \<in> set (the (messages g i)) \<and> m < v"
    using compared_waiting[OF running_node(3)[OF assms(1,2)] assms(3), of "now g" "the (messages g i)"]
    by blast
  then show ?thesis using assms(4) by auto
qed

lemma round_waiting:
  assumes "running g" "i < length (heap g)" "min_val (heap g ! i) = Known v"
    and "e \<in> set (waiting (heap (advance g) ! i))"
  shows "e \<in> set (waiting (heap g ! i))
       \<or> (\<exists>m h. e = (m, 2, now g) \<and> (m, h) \<in> set (the (messages g i)) \<and> m < v)"
proof -
  have "e \<in> set (waiting (compared (now g) (the (messages g i)) (heap g ! i)))"
    using assms(4) by (simp add: running_node(1)[OF assms(1,2)])
  then show ?thesis by (rule round_entries[OF assms(1,2,3)])
qed

lemma round_sent:
  assumes "running g" "i < length (heap g)" "min_val (heap g ! i) = Known v"
    and "x \<in> set (sent g i)"
  shows "\<exists>e. x = strip e \<and> (e \<in> set (waiting (heap g ! i))
       \<or> (\<exists>m h. e = (m, 2, now g) \<and> (m, h) \<in> set (the (messages g i)) \<and> m < v))"
proof -
  obtain e where "x = strip e" "e \<in> set (waiting (compared (now g) (the (messages g i)) (heap g ! i)))"
    using assms(4) by (auto simp: running_node(2)[OF assms(1,2)])
  then show ?thesis using round_entries[OF assms(1,2,3)] by blast
qed

lemma round_keeps:
  assumes "running g" "i < length (heap g)"
    and "e \<in> set (waiting (compared (now g) (the (messages g i)) (heap g ! i)))"
  shows "e \<in> set (waiting (heap (advance g) ! i)) \<or> strip e \<in> set (sent g i)"
  using assms(3) by (auto simp: running_node(1,2)[OF assms(1,2)])

lemma round_keeps_old:
  assumes "running g" "i < length (heap g)" "e \<in> set (waiting (heap g ! i))"
  shows "e \<in> set (waiting (heap (advance g) ! i)) \<or> strip e \<in> set (sent g i)"
proof -
  obtain v where v: "min_val (heap g ! i) = Known v"
    using running_node(3)[OF assms(1,2)] by (auto simp: awake_node_def)
  obtain W where "waiting (compared (now g) (the (messages g i)) (heap g ! i)) = waiting (heap g ! i) @ W"
    using compared_waiting[OF running_node(3)[OF assms(1,2)] v, of "now g" "the (messages g i)"]
    by blast
  then have "e \<in> set (waiting (compared (now g) (the (messages g i)) (heap g ! i)))"
    using assms(3) by simp
  then show ?thesis by (rule round_keeps[OF assms(1,2)])
qed

lemma round_keeps_least:
  assumes "running g" "i < length (heap g)" "min_val (heap g ! i) = Known v"
    and "(m, h) \<in> set (the (messages g i))" "m < v" "\<forall>(m', h') \<in> set (the (messages g i)). m \<le> m'"
  shows "(m, 2, now g) \<in> set (waiting (heap (advance g) ! i)) \<or> (m, 2) \<in> set (sent g i)"
proof -
  have "(m, 2, now g) \<in> set (waiting (compared (now g) (the (messages g i)) (heap g ! i)))"
    by (rule compared_queues_least[OF running_node(3)[OF assms(1,2)] assms(3,6)])
       (use assms(4,5) in blast)
  from round_keeps[OF assms(1,2) this] show ?thesis by (simp add: strip_def)
qed

section \<open>No candidate passes the smallest identifier\<close>

lemma behind_ge: "behind ids p m j \<Longrightarrow> smallest ids p \<Longrightarrow> ids ! p \<le> m"
  by (auto simp: behind_def smallest_def)

lemma behind_self:
  assumes "behind ids p (ids ! j) j" "distinct ids" "j < length ids"
  shows "j = p"
proof -
  obtain k where k: "k < length ids" "ids ! j = ids ! k"
      "k = p \<or> hops (length ids) p j < hops (length ids) p k"
    using assms(1) by (auto simp: behind_def)
  have "j = k" using k(1,2) assms(2,3) by (simp add: nth_eq_iff_index_eq)
  then show ?thesis using k(3) by auto
qed

lemma behind_left:
  assumes "behind ids p m r" "r \<noteq> p" "r < length ids" "p < length ids"
  shows "behind ids p m ((r + length ids - 1) mod length ids)"
proof -
  obtain k where k: "k < length ids" "m = ids ! k"
      "k = p \<or> hops (length ids) p r < hops (length ids) p k"
    using assms(1) by (auto simp: behind_def)
  have "hops (length ids) p ((r + length ids - 1) mod length ids) < hops (length ids) p r"
    using hops_left[OF assms(3,4,2)] .
  then have "k = p \<or> hops (length ids) p ((r + length ids - 1) mod length ids) < hops (length ids) p k"
    using k(3) by auto
  then show ?thesis using k(1,2) unfolding behind_def by blast
qed

lemma behind_origin:
  assumes "r < length ids" "p < length ids"
  shows "behind ids p (ids ! r) ((r + length ids - 1) mod length ids)"
proof (cases "r = p")
  case True
  then show ?thesis using assms unfolding behind_def by blast
next
  case False
  then have "hops (length ids) p ((r + length ids - 1) mod length ids) < hops (length ids) p r"
    using hops_left[OF assms False] by simp
  then show ?thesis using assms(1) unfolding behind_def by blast
qed

lemma sender:
  assumes "j < N"
  shows "(j + 1) mod N < N" and "((j + 1) mod N + N - 1) mod N = (j::nat)"
proof -
  have "0 < N" using assms by auto
  then show r: "(j + 1) mod N < N" by (rule mod_less_divisor)
  show "((j + 1) mod N + N - 1) mod N = j" using ring_pred_succ[OF r assms] by simp
qed

lemma fresh_round:
  assumes "fresh g" "i < length (heap g)"
  shows "heap (advance g) ! i =
           (heap g ! i)\<lparr>status := Participating, min_val := Known (ident (heap g ! i)), waiting := []\<rparr>"
    and "sent g i = [(ident (heap g ! i), 1)]"
  using heap_advance[OF assms(2)] event_fresh[OF assms] by (simp_all add: sent_def)

lemma safe_start:
  assumes "setting ids p g" "fresh g"
  shows "safe ids p (advance g)"
proof -
  have len: "length (heap g) = length ids" and id: "\<And>i. i < length ids \<Longrightarrow> ident (heap g ! i) = ids ! i"
    and sm: "smallest ids p" using assms(1) by (simp_all add: setting_def)
  have p: "p < length ids" using sm by (simp add: smallest_def)
  have node: "\<And>j. j < length ids \<Longrightarrow> heap (advance g) ! j =
           (heap g ! j)\<lparr>status := Participating, min_val := Known (ids ! j), waiting := []\<rparr>"
    using fresh_round(1)[OF assms(2)] len id by simp
  have per_node: "(\<forall>(m, h) \<in> set (the (messages (advance g) j)). behind ids p m j) \<and>
        (\<forall>(m, h, stored_time) \<in> set (waiting (heap (advance g) ! j)). j \<noteq> p \<and> behind ids p m j) \<and>
        (j \<noteq> p \<longrightarrow> \<not> is_leader (heap (advance g) ! j) \<and> status (heap (advance g) ! j) \<noteq> Elected) \<and>
        (\<exists>v. min_val (heap (advance g) ! j) = Known v \<and> ids ! p \<le> v)" if j: "j < length ids" for j
  proof -
    let ?r = "(j + 1) mod length ids"
    have r: "?r < length ids" and lr: "(?r + length ids - 1) mod length ids = j"
      using sender[OF j] by simp_all
    have "messages (advance g) j = Some (sent g ?r)" using messages_advance_sent[of j g] j len by simp
    then have m: "the (messages (advance g) j) = [(ids ! ?r, 1)]"
      using fresh_round(2)[OF assms(2), of ?r] r len id by simp
    have b: "behind ids p (ids ! ?r) j" using behind_origin[OF r p] lr by simp
    have nl: "\<not> is_leader (heap g ! j)" using fresh_fields(4)[OF assms(2)] j len by simp
    have "ids ! p \<le> ids ! j" using sm j by (simp add: smallest_def)
    then show ?thesis using m b nl by (simp add: node[OF j])
  qed
  have "min_val (heap (advance g) ! p) = Known (ids ! p)"
    and "status (heap (advance g) ! p) \<noteq> NotElected"
    using node[OF p] by simp_all
  then show ?thesis unfolding safe_def using per_node by blast
qed

lemma safe_advance:
  assumes "setting ids p g" "running g" "safe ids p g"
  shows "safe ids p (advance g)"
proof -
  have len: "length (heap g) = length ids" and id: "\<And>i. i < length ids \<Longrightarrow> ident (heap g ! i) = ids ! i"
    and sm: "smallest ids p" and di: "distinct ids" using assms(1) by (simp_all add: setting_def)
  have p: "p < length ids" using sm by (simp add: smallest_def)
  have in_msg: "\<And>j m h. j < length ids \<Longrightarrow> (m, h) \<in> set (the (messages g j)) \<Longrightarrow> behind ids p m j"
    using assms(3) unfolding safe_def by blast
  have in_wait: "\<And>j m h s. j < length ids \<Longrightarrow> (m, h, s) \<in> set (waiting (heap g ! j))
      \<Longrightarrow> j \<noteq> p \<and> behind ids p m j"
    using assms(3) unfolding safe_def by blast
  have others: "\<And>j. j < length ids \<Longrightarrow> j \<noteq> p
      \<Longrightarrow> \<not> is_leader (heap g ! j) \<and> status (heap g ! j) \<noteq> Elected"
    using assms(3) unfolding safe_def by blast
  have mins: "\<And>j. j < length ids \<Longrightarrow> \<exists>v. min_val (heap g ! j) = Known v \<and> ids ! p \<le> v"
    using assms(3) unfolding safe_def by blast
  have minp: "min_val (heap g ! p) = Known (ids ! p)" and stp: "status (heap g ! p) \<noteq> NotElected"
    using assms(3) unfolding safe_def by simp_all
  (* A node that takes a candidate over is not p. *)
  have taker: "j \<noteq> p" if "j < length ids" "min_val (heap g ! j) = Known v"
      "(m, h) \<in> set (the (messages g j))" "m < v" for j v m h
  proof
    assume "j = p"
    then have "v = ids ! p" using that(2) minp by simp
    moreover have "ids ! p \<le> m" using behind_ge[OF in_msg[OF that(1,3)] sm] .
    ultimately show False using that(4) by simp
  qed
  have entry: "j \<noteq> p \<and> behind ids p m j"
    if j: "j < length ids" and v: "min_val (heap g ! j) = Known v"
      and e: "(m, h, s) \<in> set (waiting (heap g ! j))
         \<or> (\<exists>m' h'. (m, h, s) = (m', 2, now g) \<and> (m', h') \<in> set (the (messages g j)) \<and> m' < v)"
    for j v m h s
    using e
  proof
    assume "(m, h, s) \<in> set (waiting (heap g ! j))"
    then show ?thesis using in_wait[OF j] by blast
  next
    assume "\<exists>m' h'. (m, h, s) = (m', 2, now g) \<and> (m', h') \<in> set (the (messages g j)) \<and> m' < v"
    then obtain h' where "(m, h') \<in> set (the (messages g j))" "m < v" by auto
    then show ?thesis using taker[OF j v] in_msg[OF j] by blast
  qed
  have per_node: "(\<forall>(m, h) \<in> set (the (messages (advance g) j)). behind ids p m j) \<and>
        (\<forall>(m, h, stored_time) \<in> set (waiting (heap (advance g) ! j)). j \<noteq> p \<and> behind ids p m j) \<and>
        (j \<noteq> p \<longrightarrow> \<not> is_leader (heap (advance g) ! j) \<and> status (heap (advance g) ! j) \<noteq> Elected) \<and>
        (\<exists>v. min_val (heap (advance g) ! j) = Known v \<and> ids ! p \<le> v)" if j: "j < length ids" for j
  proof (intro conjI)
    let ?r = "(j + 1) mod length ids"
    have r: "?r < length ids" and lr: "(?r + length ids - 1) mod length ids = j"
      using sender[OF j] by simp_all
    have jh: "j < length (heap g)" and rh: "?r < length (heap g)" using j r len by simp_all
    obtain v where v: "min_val (heap g ! j) = Known v" "ids ! p \<le> v" using mins[OF j] by blast
    obtain vr where vr: "min_val (heap g ! ?r) = Known vr" using mins[OF r] by blast
    have m: "the (messages (advance g) j) = sent g ?r" using messages_advance_sent[OF jh] len by simp
    show "\<forall>(m, h) \<in> set (the (messages (advance g) j)). behind ids p m j"
    proof (clarify)
      fix m h assume "(m, h) \<in> set (the (messages (advance g) j))"
      then have "(m, h) \<in> set (sent g ?r)" using m by simp
      then obtain e where e: "(m, h) = strip e" "e \<in> set (waiting (heap g ! ?r))
          \<or> (\<exists>m' h'. e = (m', 2, now g) \<and> (m', h') \<in> set (the (messages g ?r)) \<and> m' < vr)"
        using round_sent[OF assms(2) rh vr] by blast
      obtain s where es: "e = (m, h, s)" using e(1) by (cases e) (simp add: strip_def)
      have "?r \<noteq> p \<and> behind ids p m ?r" using entry[OF r vr] e(2) unfolding es by blast
      then show "behind ids p m j" using behind_left[OF _ _ r p] lr by auto
    qed
    show "\<forall>(m, h, stored_time) \<in> set (waiting (heap (advance g) ! j)). j \<noteq> p \<and> behind ids p m j"
    proof (clarify)
      fix m h s assume "(m, h, s) \<in> set (waiting (heap (advance g) ! j))"
      from round_waiting[OF assms(2) jh v(1) this]
      have "j \<noteq> p \<and> behind ids p m j" by (rule entry[OF j v(1)])
      then show "j \<noteq> p \<and> behind ids p m j" .
    qed
    show "j \<noteq> p \<longrightarrow> \<not> is_leader (heap (advance g) ! j) \<and> status (heap (advance g) ! j) \<noteq> Elected"
    proof
      assume jp: "j \<noteq> p"
      have own: "\<not> (\<exists>h. (ident (heap g ! j), h) \<in> set (the (messages g j)))"
      proof
        assume "\<exists>h. (ident (heap g ! j), h) \<in> set (the (messages g j))"
        then obtain h where "(ids ! j, h) \<in> set (the (messages g j))" using id[OF j] by auto
        then have "behind ids p (ids ! j) j" using in_msg[OF j] by blast
        then show False using behind_self[OF _ di j] jp by simp
      qed
      have "\<not> is_leader (heap (advance g) ! j)"
        using round_leader[OF assms(2) jh] own others[OF j jp] by blast
      moreover have "status (heap (advance g) ! j) \<noteq> Elected"
        using round_status[OF assms(2) jh v(1)] own others[OF j jp] by auto
      ultimately show "\<not> is_leader (heap (advance g) ! j) \<and> status (heap (advance g) ! j) \<noteq> Elected"
        by simp
    qed
    show "\<exists>v. min_val (heap (advance g) ! j) = Known v \<and> ids ! p \<le> v"
    proof -
      obtain v' where v': "min_val (heap (advance g) ! j) = Known v'"
          "v' = v \<or> (\<exists>h. (v', h) \<in> set (the (messages g j)))"
        using round_min[OF assms(2) jh v(1)] by blast
      from v'(2) have "ids ! p \<le> v'"
      proof
        assume "v' = v"
        then show ?thesis using v(2) by simp
      next
        assume "\<exists>h. (v', h) \<in> set (the (messages g j))"
        then show ?thesis using behind_ge[OF in_msg[OF j] sm] by blast
      qed
      then show ?thesis using v'(1) by blast
    qed
  qed
  have ph: "p < length (heap g)" using p len by simp
  have nothing_below: "\<forall>(m, h) \<in> set (the (messages g p)). \<not> m < ids ! p"
    using behind_ge[OF in_msg[OF p] sm] by fastforce
  have "min_val (heap (advance g) ! p) = Known (ids ! p)"
  proof -
    obtain v' where v': "min_val (heap (advance g) ! p) = Known v'" "v' \<le> ids ! p"
      using round_min[OF assms(2) ph minp] by blast
    moreover have "ids ! p \<le> v'" using per_node[OF p] v'(1) by auto
    ultimately show ?thesis by simp
  qed
  moreover have "status (heap (advance g) ! p) \<noteq> NotElected"
    using round_status[OF assms(2) ph minp] stp nothing_below by auto
  ultimately show ?thesis unfolding safe_def using per_node by blast
qed

section \<open>The smallest candidate is not lost\<close>

lemma left_sender:
  assumes "x < N"
  shows "(x + N - 1) mod N < N" and "((x + N - 1) mod N + 1) mod N = (x::nat)"
proof -
  have "0 < N" using assms by auto
  then show "(x + N - 1) mod N < N" by (rule mod_less_divisor)
  show "((x + N - 1) mod N + 1) mod N = x" by (rule left_then_right[OF assms])
qed

lemma live_start:
  assumes "setting ids p g" "fresh g"
  shows "live ids p (advance g)"
  unfolding live_def
proof (intro allI impI)
  fix x assume x: "x < length ids" and mv: "min_val (heap (advance g) ! x) = Known (ids ! p)"
  have len: "length (heap g) = length ids" and id: "\<And>i. i < length ids \<Longrightarrow> ident (heap g ! i) = ids ! i"
    and sm: "smallest ids p" and di: "distinct ids" using assms(1) by (simp_all add: setting_def)
  have p: "p < length ids" using sm by (simp add: smallest_def)
  let ?y = "(x + length ids - 1) mod length ids"
  have y: "?y < length ids" and yx: "(?y + 1) mod length ids = x" using left_sender[OF x] by simp_all
  have "min_val (heap (advance g) ! x) = Known (ids ! x)"
    using fresh_round(1)[OF assms(2), of x] x len id by simp
  then have "ids ! x = ids ! p" using mv by simp
  then have xp: "x = p" using di x p by (simp add: nth_eq_iff_index_eq)
  have "messages (advance g) ?y = Some (sent g x)"
    using messages_advance_sent[of ?y g] y yx len by simp
  then have "the (messages (advance g) ?y) = [(ids ! p, 1)]"
    using fresh_round(2)[OF assms(2), of x] x len id xp by simp
  then have "\<exists>h. (ids ! p, h) \<in> set (the (messages (advance g) ?y))" by simp
  then show "(\<exists>h s. (ids ! p, h, s) \<in> set (waiting (heap (advance g) ! x)))
      \<or> (\<exists>h. (ids ! p, h) \<in> set (the (messages (advance g) ?y)))
      \<or> (?y \<noteq> p \<and> min_val (heap (advance g) ! ?y) = Known (ids ! p))
      \<or> (?y = p \<and> status (heap (advance g) ! p) = Elected \<and> is_leader (heap (advance g) ! p))"
    by blast
qed

lemma live_advance:
  assumes "setting ids p g" "running g" "safe ids p g" "live ids p g"
  shows "live ids p (advance g)"
  unfolding live_def
proof (intro allI impI)
  fix x assume x: "x < length ids" and mv: "min_val (heap (advance g) ! x) = Known (ids ! p)"
  have len: "length (heap g) = length ids" and id: "\<And>i. i < length ids \<Longrightarrow> ident (heap g ! i) = ids ! i"
    and sm: "smallest ids p" and di: "distinct ids" using assms(1) by (simp_all add: setting_def)
  have p: "p < length ids" using sm by (simp add: smallest_def)
  have ph: "p < length (heap g)" using p len by simp
  have safe': "safe ids p (advance g)" by (rule safe_advance[OF assms(1,2,3)])
  have in_msg: "\<And>j m h. j < length ids \<Longrightarrow> (m, h) \<in> set (the (messages g j)) \<Longrightarrow> ids ! p \<le> m"
    using assms(3) behind_ge[OF _ sm] unfolding safe_def by blast
  have mins: "\<And>j. j < length ids \<Longrightarrow> \<exists>v. min_val (heap g ! j) = Known v \<and> ids ! p \<le> v"
    using assms(3) unfolding safe_def by blast
  have mins': "\<And>j v. j < length ids \<Longrightarrow> min_val (heap (advance g) ! j) = Known v \<Longrightarrow> ids ! p \<le> v"
    using safe' unfolding safe_def by fastforce
  have minp: "min_val (heap g ! p) = Known (ids ! p)" using assms(3) unfolding safe_def by simp
  let ?a = "ids ! p"
  let ?y = "(x + length ids - 1) mod length ids"
  have y: "?y < length ids" and yx: "(?y + 1) mod length ids = x" using left_sender[OF x] by simp_all
  have xh: "x < length (heap g)" and yh: "?y < length (heap g)" using x y len by simp_all
  have my: "the (messages (advance g) ?y) = sent g x"
    using messages_advance_sent[OF yh] yx len by simp
  obtain v where v: "min_val (heap g ! x) = Known v" "?a \<le> v" using mins[OF x] by blast
  (* An entry for the candidate is kept or sent. *)
  have moves: "(\<exists>h s. (?a, h, s) \<in> set (waiting (heap (advance g) ! x)))
      \<or> (\<exists>h. (?a, h) \<in> set (the (messages (advance g) ?y)))"
    if "(?a, h, s) \<in> set (waiting (heap (advance g) ! x)) \<or> (?a, h) \<in> set (sent g x)" for h s
    using that my by auto
  (* The left neighbour, if it is p, is elected by the candidate; else it takes it over. *)
  have arrives: "(?y \<noteq> p \<and> min_val (heap (advance g) ! ?y) = Known ?a)
      \<or> (?y = p \<and> status (heap (advance g) ! p) = Elected \<and> is_leader (heap (advance g) ! p))"
    if rec: "(?a, h) \<in> set (the (messages g ?y))" for h
  proof (cases "?y = p")
    case True
    have "\<forall>(m, h) \<in> set (the (messages g p)). \<not> m < ?a" using in_msg[OF p] by fastforce
    moreover have "\<exists>h. (ident (heap g ! p), h) \<in> set (the (messages g p))"
      using rec True id[OF p] by auto
    ultimately have "status (heap (advance g) ! p) = Elected \<and> is_leader (heap (advance g) ! p)"
      using round_elected[OF assms(2) ph minp] by blast
    then show ?thesis using True by simp
  next
    case False
    obtain vy where vy: "min_val (heap g ! ?y) = Known vy" using mins[OF y] by blast
    obtain v' where v': "min_val (heap (advance g) ! ?y) = Known v'"
        "\<forall>(m, h) \<in> set (the (messages g ?y)). v' \<le> m"
      using round_min[OF assms(2) yh vy] by blast
    have "v' \<le> ?a" using v'(2) rec by auto
    moreover have "?a \<le> v'" using mins'[OF y v'(1)] .
    ultimately show ?thesis using False v'(1) by simp
  qed
  show "(\<exists>h s. (?a, h, s) \<in> set (waiting (heap (advance g) ! x)))
      \<or> (\<exists>h. (?a, h) \<in> set (the (messages (advance g) ?y)))
      \<or> (?y \<noteq> p \<and> min_val (heap (advance g) ! ?y) = Known ?a)
      \<or> (?y = p \<and> status (heap (advance g) ! p) = Elected \<and> is_leader (heap (advance g) ! p))"
  proof (cases "v = ?a")
    case False
    obtain v' where v': "min_val (heap (advance g) ! x) = Known v'"
        "v' = v \<or> (\<exists>h. (v', h) \<in> set (the (messages g x)))"
        "\<forall>(m, h) \<in> set (the (messages g x)). v' \<le> m"
      using round_min[OF assms(2) xh v(1)] by blast
    have va: "v' = ?a" using v'(1) mv by simp
    then obtain h where h: "(?a, h) \<in> set (the (messages g x))" using v'(2) False by auto
    have lt: "?a < v" using v(2) False by simp
    have least: "\<forall>(m', h') \<in> set (the (messages g x)). ?a \<le> m'" using v'(3) va by simp
    from round_keeps_least[OF assms(2) xh v(1) h lt least] moves show ?thesis by blast
  next
    case True
    then have "min_val (heap g ! x) = Known ?a" using v(1) by simp
    then consider
        (held) h s where "(?a, h, s) \<in> set (waiting (heap g ! x))"
      | (flying) h where "(?a, h) \<in> set (the (messages g ?y))"
      | (taken) "?y \<noteq> p" "min_val (heap g ! ?y) = Known ?a"
      | (arrived) "?y = p" "status (heap g ! p) = Elected" "is_leader (heap g ! p)"
      using assms(4) x unfolding live_def by blast
    then show ?thesis
    proof cases
      case held
      from round_keeps_old[OF assms(2) xh held]
      have "(?a, h, s) \<in> set (waiting (heap (advance g) ! x)) \<or> (?a, h) \<in> set (sent g x)"
        by (simp add: strip_def)
      then show ?thesis using moves by blast
    next
      case flying
      then show ?thesis using arrives by blast
    next
      case taken
      obtain v' where v': "min_val (heap (advance g) ! ?y) = Known v'" "v' \<le> ?a"
        using round_min[OF assms(2) yh taken(2)] by blast
      then have "v' = ?a" using mins'[OF y v'(1)] by simp
      then show ?thesis using taken(1) v'(1) by simp
    next
      case arrived
      have "\<forall>(m, h) \<in> set (the (messages g p)). \<not> m < ?a" using in_msg[OF p] by fastforce
      then have "status (heap (advance g) ! p) = Elected \<and> is_leader (heap (advance g) ! p)"
        using round_elected[OF assms(2) ph minp] arrived by blast
      then show ?thesis using arrived(1) by simp
    qed
  qed
qed

text \<open>When nothing is in transit and nothing waits, the candidate of \<open>p\<close> has come home.\<close>

lemma quiet_elected:
  assumes "smallest ids p" "safe ids p g" "live ids p g"
    and "\<forall>j < length ids. the (messages g j) = [] \<and> waiting (heap g ! j) = []"
  shows "status (heap g ! p) = Elected \<and> is_leader (heap g ! p)"
proof -
  let ?N = "length ids"
  let ?E = "status (heap g ! p) = Elected \<and> is_leader (heap g ! p)"
  have p: "p < ?N" using assms(1) by (simp add: smallest_def)
  have pos: "0 < ?N" using p by auto
  have step: "?E \<or> min_val (heap g ! ((x + ?N - 1) mod ?N)) = Known (ids ! p)"
    if "x < ?N" "min_val (heap g ! x) = Known (ids ! p)" for x
  proof -
    have y: "(x + ?N - 1) mod ?N < ?N" using pos by (rule mod_less_divisor)
    have "\<not> (\<exists>h s. (ids ! p, h, s) \<in> set (waiting (heap g ! x)))" using assms(4) that(1) by simp
    moreover have "\<not> (\<exists>h. (ids ! p, h) \<in> set (the (messages g ((x + ?N - 1) mod ?N))))"
      using assms(4) y by simp
    ultimately show ?thesis using assms(3) that unfolding live_def by blast
  qed
  have chain: "e < ?N \<Longrightarrow> ?E \<or> min_val (heap g ! ((p + ?N - e) mod ?N)) = Known (ids ! p)" for e
  proof (induction e)
    case 0
    have "(p + ?N - 0) mod ?N = p" using p by simp
    then show ?case using assms(2) unfolding safe_def by simp
  next
    case (Suc e)
    then have e: "e < ?N" by simp
    have x: "(p + ?N - e) mod ?N < ?N" using pos by (rule mod_less_divisor)
    from Suc.IH[OF e] show ?case
    proof
      assume ?E then show ?thesis by simp
    next
      assume "min_val (heap g ! ((p + ?N - e) mod ?N)) = Known (ids ! p)"
      from step[OF x this] show ?thesis unfolding chain_left[OF e p] .
    qed
  qed
  obtain e where e: "?N = Suc e" using pos by (cases ?N) auto
  have last: "e < ?N" using e by simp
  from chain[OF last] show ?thesis
  proof
    assume ?E then show ?thesis .
  next
    assume m: "min_val (heap g ! ((p + ?N - e) mod ?N)) = Known (ids ! p)"
    have x: "(p + ?N - e) mod ?N < ?N" using pos by (rule mod_less_divisor)
    have "((p + ?N - e) mod ?N + ?N - 1) mod ?N = (p + ?N - Suc e) mod ?N" by (rule chain_left[OF last p])
    also have "\<dots> = p" using e p by simp
    finally have home: "((p + ?N - e) mod ?N + ?N - 1) mod ?N = p" .
    have "\<not> (\<exists>h s. (ids ! p, h, s) \<in> set (waiting (heap g ! ((p + ?N - e) mod ?N))))"
      using assms(4) x by simp
    moreover have "\<not> (\<exists>h. (ids ! p, h) \<in> set (the (messages g p)))" using assms(4) p by simp
    ultimately show ?thesis using assms(3) x m home unfolding live_def by fastforce
  qed
qed

section \<open>The election as a whole\<close>

lemma smallest_exists:
  assumes "ids \<noteq> []"
  shows "\<exists>p. smallest ids p \<and> ids ! p = Min (set ids)"
proof -
  have "Min (set ids) \<in> set ids" using assms by (intro Min_in) simp_all
  then obtain p where p: "p < length ids" "ids ! p = Min (set ids)" by (auto simp: in_set_conv_nth)
  have "\<forall>k < length ids. ids ! p \<le> ids ! k" using p(2) by simp
  then show ?thesis using p unfolding smallest_def by blast
qed

lemma reachable_election:
  assumes "reachable (election_setup cap init (make_ring ids)) s" "distinct ids" "smallest ids p"
  shows "setting ids p (snd s) \<and> phase ids (snd s)
       \<and> (0 < now (snd s) \<longrightarrow> safe ids p (snd s) \<and> live ids p (snd s))"
proof -
  let ?g0 = "election_setup cap init (make_ring ids)"
  let ?P = "\<lambda>g. phase ids g \<and> (0 < now g \<longrightarrow> safe ids p g \<and> live ids p g)"
  have r0: "ring ?g0" by (simp add: ring_setup ring_make_ring)
  have "?P (snd s)"
  proof (rule reachable_invariant[OF assms(1) r0])
    have "now ?g0 = 0" by (simp add: setup_simps make_ring_def Graph_def)
    then show "?P ?g0" by (simp add: phase_start)
  next
    fix g assume r: "ring g" and P: "?P g"
    then have ph: "phase ids g" by simp
    then have se: "setting ids p g" using r assms(2,3) by (simp add: setting_def phase_def)
    from ph consider "fresh g" "now g = 0" | "running g" "0 < now g" by (auto simp: phase_def)
    then have "safe ids p (advance g) \<and> live ids p (advance g)"
    proof cases
      case 1
      then show ?thesis using safe_start[OF se] live_start[OF se] by simp
    next
      case 2
      then have "safe ids p g" "live ids p g" using P by simp_all
      then show ?thesis using safe_advance[OF se 2(1)] live_advance[OF se 2(1)] by simp
    qed
    then show "?P (advance g)" using phase_advance[OF ph] by simp
  qed
  moreover have "ring (snd s)" using reachable_phase[OF assms(1)] by simp
  ultimately show ?thesis using assms(2,3) by (simp add: setting_def phase_def)
qed

lemma reachable_inversion:
  "reachable g0 (a, g) \<Longrightarrow> (a \<and> g = g0)
     \<or> (\<exists>g1 cap g'. reachable g0 (True, g1) \<and> max_rounds g1 = Some cap \<and> now g1 < cap
           \<and> process_round g1 = Inr (a, g') \<and> g = g'\<lparr>now := now g' + 1\<rparr>)"
  by (erule reachable.cases) auto

lemma reachable_stopped:
  assumes "ring g0" "reachable g0 (False, g)"
  shows "\<exists>g1. reachable g0 (True, g1) \<and> \<not> round_activity g1 \<and> g = advance g1"
proof -
  obtain g1 g' where g1: "reachable g0 (True, g1)" "process_round g1 = Inr (False, g')"
      "g = g'\<lparr>now := now g' + 1\<rparr>"
    using reachable_inversion[OF assms(2)] by blast
  have r: "ring g1" using reachable_ring[OF g1(1) assms(1)] by simp
  have "False = round_activity g1" using round_result(3)[OF r g1(2)] process_round_ring[OF r] g1(2)
    by simp
  moreover have "g = advance g1" using turn_advance_now[OF r g1(2)] g1(3) by simp
  ultimately show ?thesis using g1(1) by blast
qed

lemma quiet_state:
  assumes "\<not> round_activity g" "j < length (heap g)"
  shows "the (messages (advance g) j) = []" and "waiting (heap (advance g) ! j) = []"
proof -
  have "0 < length (heap g)" using assms(2) by auto
  then have r: "(j + 1) mod length (heap g) < length (heap g)" by (rule mod_less_divisor)
  have all: "\<And>i. i < length (heap g) \<Longrightarrow> snd (event (now g) (messages g) (heap g) i) = []
      \<and> waiting (fst (event (now g) (messages g) (heap g) i)) = []"
    using assms(1) unfolding round_activity_def by blast
  show "the (messages (advance g) j) = []" using messages_advance[OF assms(2)] all[OF r] by simp
  show "waiting (heap (advance g) ! j) = []" using heap_advance[OF assms(2)] all[OF assms(2)] by simp
qed

section \<open>The processing order\<close>

lemma round_same:
  assumes "heap g = heap h" "messages g = messages h" "now g = now h"
  shows "round_heap g = round_heap h" "round_messages g = round_messages h"
    "round_activity g = round_activity h"
  unfolding round_heap_def round_messages_def round_activity_def assms by simp_all

text \<open>The order in which the nodes are listed does not matter to the scheduler.\<close>

lemma round_process_order:
  assumes "ring g" "ring h" "heap g = heap h" "messages g = messages h" "now g = now h"
    and "max_rounds g = Some cap" "max_rounds h = Some cap"
  shows "\<exists>a' g' h'. round_process a g = Inr (a', g') \<and> round_process a h = Inr (a', h')
          \<and> heap g' = heap h' \<and> messages g' = messages h' \<and> now g' = now h'
          \<and> nodes g' = nodes g \<and> nodes h' = nodes h"
  using assms
proof (induction a g arbitrary: h rule: round_process.induct)
  case (1 activity g)
  show ?case
  proof (cases "activity \<and> now g < cap")
    case False
    have "round_process activity g = Inr (activity, g)"
      using False "1.prems"(6) by (subst round_process.simps) auto
    moreover have "round_process activity h = Inr (activity, h)"
      using False "1.prems"(5,7) by (subst round_process.simps) auto
    ultimately show ?thesis using "1.prems"(3,4,5) by simp
  next
    case True
    let ?g' = "g\<lparr>heap := round_heap g, messages := round_messages g\<rparr>"
    let ?h' = "h\<lparr>heap := round_heap h, messages := round_messages h\<rparr>"
    let ?G = "?g'\<lparr>now := now ?g' + 1\<rparr>"
    let ?H = "?h'\<lparr>now := now ?h' + 1\<rparr>"
    have prg: "process_round g = Inr (round_activity g, ?g')" by (rule process_round_ring[OF "1.prems"(1)])
    have prh: "process_round h = Inr (round_activity h, ?h')" by (rule process_round_ring[OF "1.prems"(2)])
    note same = round_same[OF "1.prems"(3,4,5)]
    have G: "?G = advance g" and H: "?H = advance h" by (simp_all add: advance_def)
    have rG: "ring ?G" and rH: "ring ?H"
      unfolding G H using "1.prems"(1,2) by (simp_all add: ring_advance)
    have eg: "round_process activity g = round_process (round_activity g) ?G"
      using True "1.prems"(6) prg by (subst round_process.simps) simp
    have eh: "round_process activity h = round_process (round_activity g) ?H"
      using True "1.prems"(5,7) prh same(3) by (subst round_process.simps) simp
    have "\<exists>a' g' h'. round_process (round_activity g) ?G = Inr (a', g')
          \<and> round_process (round_activity g) ?H = Inr (a', h')
          \<and> heap g' = heap h' \<and> messages g' = messages h' \<and> now g' = now h'
          \<and> nodes g' = nodes ?G \<and> nodes h' = nodes ?H"
    proof (rule "1.IH")
      show activity using True by simp
      show "max_rounds g = Some cap" by (rule "1.prems"(6))
      show "now g < cap" using True by simp
      show "process_round g = Inr (round_activity g, ?g')" by (rule prg)
      show "(round_activity g, ?g') = (round_activity g, ?g')" by simp
      show "ring ?G" by (rule rG)
      show "ring ?H" by (rule rH)
      show "heap ?G = heap ?H" using same(1) by simp
      show "messages ?G = messages ?H" using same(2) by simp
      show "now ?G = now ?H" using "1.prems"(5) by simp
      show "max_rounds ?G = Some cap" using "1.prems"(6) by simp
      show "max_rounds ?H = Some cap" using "1.prems"(7) by simp
    qed
    then show ?thesis unfolding eg eh by simp
  qed
qed

lemma filter_few:
  assumes "distinct xs" "distinct ys" "set xs = set ys" "\<And>i. i \<in> set xs \<Longrightarrow> P i \<Longrightarrow> i = p"
  shows "filter P xs = filter P ys"
proof (cases "p \<in> set xs \<and> P p")
  case True
  have "filter P xs = [p]" by (rule filter_unique) (use assms True in auto)
  moreover have "filter P ys = [p]" by (rule filter_unique) (use assms True in auto)
  ultimately show ?thesis by simp
next
  case False
  then have "\<forall>i \<in> set xs. \<not> P i" using assms(4) by blast
  then have "filter P xs = []" "filter P ys = []" using assms(3) by (simp_all add: filter_empty_conv)
  then show ?thesis by simp
qed

section \<open>The claims of the specification\<close>

text \<open>
  C1. On a ring of at least one node with pairwise distinct identifiers, in whatever
  order they stand and whoever the initiator is: if \<open>run_election\<close> returns with the
  clock below the cap, then it returns exactly one leader, that node carries the smallest
  identifier of the ring, and it is the only node whose leader flag is set.
\<close>

theorem unique_minimum_leader:
  assumes "ids \<noteq> []" and "distinct ids"
    and "run_election cap init (make_ring ids) = Inr (ls, g)" and "now g < cap"
  shows "\<exists>p < length ids. ls = [p] \<and> ident (heap g ! p) = Min (set ids)
       \<and> (\<forall>j < length ids. is_leader (heap g ! j) \<longleftrightarrow> j = p)"
proof -
  let ?g0 = "election_setup cap init (make_ring ids)"
  obtain p where sm: "smallest ids p" and pm: "ids ! p = Min (set ids)"
    using smallest_exists[OF assms(1)] by blast
  have p: "p < length ids" using sm by (simp add: smallest_def)
  have r0: "ring ?g0" by (simp add: ring_setup ring_make_ring)
  have m0: "max_rounds ?g0 = Some cap" by (simp add: setup_simps)
  obtain a g' where rp: "round_process True ?g0 = Inr (a, g')" and re: "reachable ?g0 (a, g')"
    and stop: "\<not> a \<or> cap \<le> now g'"
    using round_process_reachable[OF r0 m0 reachable.start] by blast
  have g: "g' = g" and ls: "ls = leaders g" using assms(3) rp by (auto simp: run_election_def)
  have "\<not> a" using stop assms(4) g by auto
  then have "reachable ?g0 (False, g)" using re g by simp
  then obtain g1 where g1: "reachable ?g0 (True, g1)" "\<not> round_activity g1" "g = advance g1"
    using reachable_stopped[OF r0] by blast
  have inv1: "setting ids p g1" "phase ids g1" using reachable_election[OF g1(1) assms(2) sm] by simp_all
  have len1: "length (heap g1) = length ids" using inv1(1) by (simp add: setting_def)
  have "0 \<le> now g1" using inv1(2) by (auto simp: phase_def)
  then have pos: "0 < now g" using g1(3) by (simp add: advance_simps)
  have inv: "setting ids p g" "safe ids p g" "live ids p g"
    using reachable_election[OF \<open>reachable ?g0 (False, g)\<close> assms(2) sm] pos by simp_all
  have quiet: "\<forall>j < length ids. the (messages g j) = [] \<and> waiting (heap g ! j) = []"
    using quiet_state[OF g1(2)] len1 unfolding g1(3) by simp
  have el: "status (heap g ! p) = Elected \<and> is_leader (heap g ! p)"
    by (rule quiet_elected[OF sm inv(2,3) quiet])
  have others: "\<And>j. j < length ids \<Longrightarrow> j \<noteq> p \<Longrightarrow> \<not> is_leader (heap g ! j)"
    using inv(2) unfolding safe_def by blast
  have only: "\<forall>j < length ids. is_leader (heap g ! j) \<longleftrightarrow> j = p" using el others by blast
  have ring: "ring g" and len: "length (heap g) = length ids"
    and id: "ident (heap g ! p) = ids ! p" using inv(1) p by (simp_all add: setting_def)
  have "filter (\<lambda>i. is_leader (heap g ! i)) (nodes g) = [p]"
  proof (rule filter_unique)
    show "distinct (nodes g)" using ring by (simp add: ring_def)
    show "p \<in> set (nodes g)" using ring p len by (simp add: ring_def)
    fix y assume "y \<in> set (nodes g)"
    then have "y < length ids" using ring len by (simp add: ring_def)
    then show "is_leader (heap g ! y) = (y = p)" using only by simp
  qed
  then have "ls = [p]" using ls by (simp add: leaders_def)
  then show ?thesis using p id pm only by auto
qed

text \<open>C1 on the ring 3, 1, 4, 2 with initiator 4: the election stops in round 8.\<close>

theorem unique_minimum_leader_witness:
  "\<exists>ls g p. run_election 100 (Some 4) (make_ring [3, 1, 4, 2]) = Inr (ls, g) \<and> now g < 100
      \<and> ls = [p] \<and> ident (heap g ! p) = 1 \<and> is_leader (heap g ! p)"
proof -
  have e: "map_sum id (\<lambda>r. now (snd r)) (run_election 100 (Some 4) (make_ring [3, 1, 4, 2])) = Inr 8"
    by code_simp
  then obtain ls g where r: "run_election 100 (Some 4) (make_ring [3, 1, 4, 2]) = Inr (ls, g)"
    by (cases "run_election 100 (Some 4) (make_ring [3, 1, 4, 2])") auto
  have n: "now g < 100" using e r by simp
  have d: "[3, 1, 4, 2 :: nat] \<noteq> []" "distinct [3, 1, 4, 2 :: nat]" by simp_all
  from unique_minimum_leader[OF d r n] show ?thesis using r n by auto
qed

text \<open>
  Against C2. Construction does not reject the empty identifier list nor a list with a
  repeated identifier: in both cases it returns a graph.
\<close>

theorem construction_accepts_bad_lists:
  "\<not> isl (build_ring []) \<and> \<not> isl (build_ring [7, 7])"
  by (simp add: build_ring_def)

text \<open>
  C2, as amended. Construction never fails: for every identifier list, the empty one and
  those with repetitions included, it returns a graph with one sleeping node per list
  position, an empty inbound queue for each, and node \<open>i\<close> linked to its successor
  \<open>(i + 1) mod N\<close> on the right and to its predecessor on the left.
\<close>

theorem construction_never_fails:
  "\<exists>g. build_ring ids = Inr g \<and> length (heap g) = length ids \<and> nodes g = [0..<length ids] \<and>
     (\<forall>i < length ids.
        ident (heap g ! i) = ids ! i \<and> status (heap g ! i) = Asleep \<and> messages g i = Some [] \<and>
        right_neighbor (heap g ! i) = Some ((i + 1) mod length ids) \<and>
        left_neighbor (heap g ! i) = Some ((i + length ids - 1) mod length ids))"
proof -
  have "build_ring ids = Inr (make_ring ids)" by (simp add: build_ring_def make_ring_def)
  moreover have "nodes (make_ring ids) = [0..<length ids]"
    by (simp add: make_ring_def Graph_def length_link_ring)
  moreover have "\<forall>i < length ids. messages (make_ring ids) i = Some []"
    by (simp add: make_ring_def Graph_def length_link_ring)
  ultimately show ?thesis by (simp add: heap_make_ring Node_def)
qed

text \<open>The amended C2 at the list \<open>[7, 7]\<close>.\<close>

theorem construction_never_fails_witness:
  "\<exists>g. build_ring [7, 7] = Inr g \<and> ident (heap g ! 1) = 7 \<and> left_neighbor (heap g ! 1) = Some 0
       \<and> right_neighbor (heap g ! 1) = Some 0 \<and> ident (heap g ! 0) = 7"
  using construction_never_fails[of "[7, 7]"] by (auto simp: build_ring_def)

text \<open>
  C3. In every state that an election on a ring reaches, and for every node: the entries
  that the node holds after its comparisons of round \<open>now\<close> all have phase 2, were
  queued at a round \<open>stored_time\<close> not after \<open>now\<close>, and \<open>now\<close> is not past
  \<open>stored_time + 2 ^ m - 1\<close>; an entry is due exactly when \<open>now\<close> is that round,
  the first one that passes the test of line 97. The round leaves in \<open>waiting\<close> the
  entries that are not due, unchanged and in their order, and delivers the due ones, after
  the messages sent before them, to the left neighbour.
\<close>

theorem waiting_release_timing:
  assumes "reachable (election_setup cap init (make_ring ids)) (a0, g)" and "i < length ids"
    and "st = foldl (compare_msg (now g)) (activate (the (messages g i)) (heap g ! i)) (the (messages g i))"
  shows "(\<forall>(m, h, stored_time) \<in> set (waiting (fst st)).
            h = 2 \<and> stored_time \<le> now g \<and> now g \<le> stored_time + 2 ^ m - 1
            \<and> (due (now g) (m, h, stored_time) \<longleftrightarrow> now g = stored_time + 2 ^ m - 1))
       \<and> (\<exists>a g'. process_round g = Inr (a, g')
            \<and> waiting (heap g' ! i) = filter (\<lambda>e. \<not> due (now g) e) (waiting (fst st))
            \<and> messages g' ((i + length ids - 1) mod length ids)
                = Some (snd st @ map strip (filter (due (now g)) (waiting (fst st)))))"
proof -
  have inv: "phase ids g" "ring g" "timed g" using reachable_phase[OF assms(1)] by simp_all
  have len: "length (heap g) = length ids" using inv(1) by (simp add: phase_def)
  have i: "i < length (heap g)" using assms(2) len by simp
  have old: "\<forall>(m, h, stored_time) \<in> set (waiting (heap g ! i)).
      h = 2 \<and> stored_time < now g \<and> \<not> due (now g - 1) (m, h, stored_time)"
    using inv(3) i by (simp add: timed_def)
  have first: "\<forall>(m, h, stored_time) \<in> set (waiting (fst st)).
            h = 2 \<and> stored_time \<le> now g \<and> now g \<le> stored_time + 2 ^ m - 1
            \<and> (due (now g) (m, h, stored_time) \<longleftrightarrow> now g = stored_time + 2 ^ m - 1)"
    using compared_entries[OF old] unfolding assms(3) by blast
  obtain a g' where pr: "process_round g = Inr (a, g')" using process_round_ring[OF inv(2)] by blast
  have "waiting (heap g' ! i) = filter (\<lambda>e. \<not> due (now g) e) (waiting (fst st))"
    using round_result(1)[OF inv(2) pr i] unfolding assms(3) by (simp add: node_event_parts)
  moreover have "messages g' ((i + length ids - 1) mod length ids)
                = Some (snd st @ map strip (filter (due (now g)) (waiting (fst st))))"
    using round_result(2)[OF inv(2) pr i] unfolding assms(3) len by (simp add: node_event_parts)
  ultimately show ?thesis using first pr by blast
qed

text \<open>
  C3 at round 2 of the election on the ring 3, 1, 4, 2: the first node releases the entry
  for candidate 1 that it queued in round 1.
\<close>

theorem waiting_release_timing_witness:
  "\<exists>a g'. process_round (advance (advance (election_setup 100 (Some 4) (make_ring [3, 1, 4, 2])))) = Inr (a, g')
      \<and> waiting (heap g' ! 0) = [] \<and> messages g' 3 = Some [(1, 2)]"
proof -
  let ?g0 = "election_setup 100 (Some 4) (make_ring [3, 1, 4, 2])"
  let ?g2 = "advance (advance ?g0)"
  let ?st = "foldl (compare_msg (now ?g2)) (activate (the (messages ?g2 0)) (heap ?g2 ! 0)) (the (messages ?g2 0))"
  have r0: "ring ?g0" by (simp add: ring_setup ring_make_ring)
  have n0: "now ?g0 < 100" by (simp add: setup_simps make_ring_def Graph_def)
  have a0: "round_activity ?g0" by code_simp
  have re1: "reachable ?g0 (True, advance ?g0)"
    using reachable_advance[OF r0 reachable.start _ n0] a0 by (simp add: setup_simps)
  have n1: "now (advance ?g0) < 100" by (simp add: advance_simps setup_simps make_ring_def Graph_def)
  have re2: "reachable ?g0 (round_activity (advance ?g0), ?g2)"
    by (rule reachable_advance[OF r0 re1 _ n1]) (simp add: advance_simps setup_simps)
  have i: "0 < length [3, 1, 4, 2 :: nat]" by simp
  obtain a g' where pr: "process_round ?g2 = Inr (a, g')"
    and w: "waiting (heap g' ! 0) = filter (\<lambda>e. \<not> due (now ?g2) e) (waiting (fst ?st))"
    and m: "messages g' ((0 + length [3, 1, 4, 2 :: nat] - 1) mod length [3, 1, 4, 2 :: nat])
                = Some (snd ?st @ map strip (filter (due (now ?g2)) (waiting (fst ?st))))"
    using waiting_release_timing[OF re2 i refl] by blast
  have e1: "filter (\<lambda>e. \<not> due (now ?g2) e) (waiting (fst ?st)) = []" by code_simp
  have e2: "snd ?st @ map strip (filter (due (now ?g2)) (waiting (fst ?st))) = [(1, 2)]" by code_simp
  show ?thesis using pr w m unfolding e1 e2 by simp
qed

text \<open>
  C4. On every ring, two elections with the same cap that differ only in the initiator
  both return, with the same node records (status, minimum, waiting entries and leader
  flag of every node), the same inbound queues and the same clock, so after the same
  number of rounds; they return the same set of leaders, and on a ring with pairwise
  distinct identifiers the same list of leaders.
\<close>

theorem initiator_irrelevant:
  "\<exists>ls1 g1 ls2 g2.
      run_election cap init1 (make_ring ids) = Inr (ls1, g1)
    \<and> run_election cap init2 (make_ring ids) = Inr (ls2, g2)
    \<and> heap g1 = heap g2 \<and> messages g1 = messages g2 \<and> now g1 = now g2
    \<and> set ls1 = set ls2 \<and> (distinct ids \<longrightarrow> ls1 = ls2)"
proof -
  let ?e1 = "election_setup cap init1 (make_ring ids)"
  let ?e2 = "election_setup cap init2 (make_ring ids)"
  have r1: "ring ?e1" and r2: "ring ?e2" by (simp_all add: ring_setup ring_make_ring)
  obtain a g1 g2 where rp1: "round_process True ?e1 = Inr (a, g1)"
    and rp2: "round_process True ?e2 = Inr (a, g2)"
    and same: "heap g1 = heap g2" "messages g1 = messages g2" "now g1 = now g2"
    using round_process_order[OF r1 r2, of cap True] by (auto simp: setup_simps)
  obtain a1 g1' where "round_process True ?e1 = Inr (a1, g1')" and "reachable ?e1 (a1, g1')"
    using round_process_reachable[OF r1 _ reachable.start, of cap] by (auto simp: setup_simps)
  then have re1: "reachable ?e1 (a, g1)" using rp1 by simp
  obtain a2 g2' where "round_process True ?e2 = Inr (a2, g2')" and "reachable ?e2 (a2, g2')"
    using round_process_reachable[OF r2 _ reachable.start, of cap] by (auto simp: setup_simps)
  then have re2: "reachable ?e2 (a, g2)" using rp2 by simp
  have ring1: "ring g1" and len1: "length (heap g1) = length ids"
    using reachable_ring[OF re1 r1] by (simp_all add: setup_simps heap_make_ring)
  have ring2: "ring g2" using reachable_ring[OF re2 r2] by simp
  have d1: "distinct (nodes g1)" and d2: "distinct (nodes g2)"
    and s: "set (nodes g1) = set (nodes g2)" and s1: "set (nodes g1) = {..<length ids}"
    using ring1 ring2 same(1) len1 by (simp_all add: ring_def)
  have run1: "run_election cap init1 (make_ring ids) = Inr (leaders g1, g1)"
    and run2: "run_election cap init2 (make_ring ids) = Inr (leaders g2, g2)"
    using rp1 rp2 by (simp_all add: run_election_def)
  have sets: "set (leaders g1) = set (leaders g2)" using s same(1) by (simp add: leaders_def)
  have lists: "leaders g1 = leaders g2" if di: "distinct ids"
  proof (cases "ids = []")
    case True
    then show ?thesis using s s1 by (simp add: leaders_def)
  next
    case False
    obtain p where sm: "smallest ids p" using smallest_exists[OF False] by blast
    have inv: "phase ids g1" "0 < now g1 \<longrightarrow> safe ids p g1"
      using reachable_election[OF re1 di sm] by simp_all
    have few: "i = p" if "i \<in> set (nodes g1)" "is_leader (heap g1 ! i)" for i
    proof -
      have i: "i < length ids" using that(1) s1 by simp
      then have "i < length (heap g1)" using len1 by simp
      then have "\<not> fresh g1" using fresh_fields(4) that(2) by blast
      then have "safe ids p g1" using inv by (auto simp: phase_def)
      then show ?thesis using i that(2) unfolding safe_def by blast
    qed
    have "filter (\<lambda>i. is_leader (heap g1 ! i)) (nodes g1) = filter (\<lambda>i. is_leader (heap g1 ! i)) (nodes g2)"
      by (rule filter_few[OF d1 d2 s few])
    then show ?thesis using same(1) by (simp add: leaders_def)
  qed
  show ?thesis using run1 run2 same sets lists by blast
qed

text \<open>
  C4 on the ring 3, 1, 4, 2 with the initiators 4 and 2: the nodes are processed in
  different orders and the outcome is the same.
\<close>

theorem initiator_irrelevant_witness:
  "\<exists>ls1 g1 ls2 g2.
      run_election 100 (Some 4) (make_ring [3, 1, 4, 2]) = Inr (ls1, g1)
    \<and> run_election 100 (Some 2) (make_ring [3, 1, 4, 2]) = Inr (ls2, g2)
    \<and> heap g1 = heap g2 \<and> now g1 = now g2 \<and> ls1 = [1] \<and> ls2 = [1]
    \<and> nodes g1 = [2, 0, 1, 3] \<and> nodes g2 = [3, 0, 1, 2]"
proof -
  obtain ls1 g1 ls2 g2 where
      r1: "run_election 100 (Some 4) (make_ring [3, 1, 4, 2]) = Inr (ls1, g1)"
    and r2: "run_election 100 (Some 2) (make_ring [3, 1, 4, 2]) = Inr (ls2, g2)"
    and same: "heap g1 = heap g2" "now g1 = now g2"
    and l: "distinct [3, 1, 4, 2 :: nat] \<longrightarrow> ls1 = ls2"
    using initiator_irrelevant[of 100 "Some 4" "[3, 1, 4, 2]" "Some 2"] by blast
  have e1: "map_sum id (\<lambda>r. (fst r, nodes (snd r))) (run_election 100 (Some 4) (make_ring [3, 1, 4, 2]))
      = Inr ([1], [2, 0, 1, 3])" by code_simp
  have e2: "map_sum id (\<lambda>r. nodes (snd r)) (run_election 100 (Some 2) (make_ring [3, 1, 4, 2]))
      = Inr [3, 0, 1, 2]" by code_simp
  have "ls1 = [1]" "nodes g1 = [2, 0, 1, 3]" using e1 r1 by simp_all
  moreover have "nodes g2 = [3, 0, 1, 2]" using e2 r2 by simp
  moreover have "ls1 = ls2" using l by simp
  ultimately show ?thesis using r1 r2 same by auto
qed

text \<open>
  C5. At every state in which the scheduler plays a round, the round does not fail;
  its activity flag is true exactly when some node sent a message or still holds a
  waiting entry; the scheduler goes on from the state after the round with that flag; and
  it stops in that state, without another round, exactly when the flag is false or the
  clock has reached the cap.
\<close>

theorem scheduler_halting:
  assumes "reachable (election_setup cap init (make_ring ids)) (True, g)" and "now g < cap"
  shows "\<exists>a g'. process_round g = Inr (a, g')
       \<and> (a \<longleftrightarrow> (\<exists>i < length ids.
               snd (node_event (now g) (the (messages g i)) (heap g ! i)) \<noteq> []
             \<or> waiting (fst (node_event (now g) (the (messages g i)) (heap g ! i))) \<noteq> []))
       \<and> round_process True g = round_process a (g'\<lparr>now := now g' + 1\<rparr>)
       \<and> (round_process a (g'\<lparr>now := now g' + 1\<rparr>) = Inr (a, g'\<lparr>now := now g' + 1\<rparr>)
            \<longleftrightarrow> \<not> a \<or> cap \<le> now g + 1)"
proof -
  let ?g0 = "election_setup cap init (make_ring ids)"
  have r0: "ring ?g0" by (simp add: ring_setup ring_make_ring)
  have inv: "phase ids g" "ring g" using reachable_phase[OF assms(1)] by simp_all
  have len: "length (heap g) = length ids" using inv(1) by (simp add: phase_def)
  have m: "max_rounds g = Some cap" using reachable_ring[OF assms(1) r0] by (simp add: setup_simps)
  obtain a g' where pr: "process_round g = Inr (a, g')" using process_round_ring[OF inv(2)] by blast
  let ?G = "g'\<lparr>now := now g' + 1\<rparr>"
  have G: "?G = advance g" and a: "a = round_activity g"
    using turn_advance_now[OF inv(2) pr] pr inv(2) by (simp_all add: turn_advance)
  have act: "a \<longleftrightarrow> (\<exists>i < length ids.
               snd (node_event (now g) (the (messages g i)) (heap g ! i)) \<noteq> []
             \<or> waiting (fst (node_event (now g) (the (messages g i)) (heap g ! i))) \<noteq> [])"
    unfolding a round_activity_def event_def len ..
  have cont: "round_process True g = round_process a ?G"
    using assms(2) m pr by (subst round_process.simps) simp
  have mG: "max_rounds ?G = Some cap" and nG: "now ?G = now g + 1" and rG: "ring ?G"
    unfolding G using m inv(2) by (simp_all add: advance_simps ring_advance)
  have halt: "round_process a ?G = Inr (a, ?G) \<longleftrightarrow> \<not> a \<or> cap \<le> now g + 1"
  proof (cases "a \<and> now ?G < cap")
    case False
    then have "round_process a ?G = Inr (a, ?G)" using mG by (subst round_process.simps) auto
    then show ?thesis using False nG by auto
  next
    case True
    obtain a2 g2 where pr2: "process_round ?G = Inr (a2, g2)" using process_round_ring[OF rG] by blast
    have n2: "now g2 = now ?G" using pr2 by (auto simp: process_round_def split: sum.splits)
    have eq: "round_process a ?G = round_process a2 (g2\<lparr>now := now g2 + 1\<rparr>)"
      using True mG pr2 by (subst round_process.simps) simp
    have "round_process a ?G \<noteq> Inr (a, ?G)"
    proof
      assume "round_process a ?G = Inr (a, ?G)"
      then have "round_process a2 (g2\<lparr>now := now g2 + 1\<rparr>) = Inr (a, ?G)" using eq by simp
      from round_process_now[OF this] show False using n2 by simp
    qed
    then show ?thesis using True nG by auto
  qed
  show ?thesis using pr act cont halt by blast
qed

text \<open>C5 at round 0 of the election on the ring 3, 1, 4, 2.\<close>

theorem scheduler_halting_witness:
  "\<exists>a g'. process_round (election_setup 100 (Some 4) (make_ring [3, 1, 4, 2])) = Inr (a, g') \<and> a
     \<and> round_process True (election_setup 100 (Some 4) (make_ring [3, 1, 4, 2])) = round_process a (g'\<lparr>now := now g' + 1\<rparr>)
     \<and> round_process a (g'\<lparr>now := now g' + 1\<rparr>) \<noteq> Inr (a, g'\<lparr>now := now g' + 1\<rparr>)"
proof -
  let ?g = "election_setup 100 (Some 4) (make_ring [3, 1, 4, 2])"
  have n: "now ?g = 0" by (simp add: setup_simps make_ring_def Graph_def)
  then have lt: "now ?g < 100" by simp
  obtain a g' where pr: "process_round ?g = Inr (a, g')"
    and act: "a \<longleftrightarrow> (\<exists>i < length [3, 1, 4, 2 :: nat].
               snd (node_event (now ?g) (the (messages ?g i)) (heap ?g ! i)) \<noteq> []
             \<or> waiting (fst (node_event (now ?g) (the (messages ?g i)) (heap ?g ! i))) \<noteq> [])"
    and cont: "round_process True ?g = round_process a (g'\<lparr>now := now g' + 1\<rparr>)"
    and halt: "round_process a (g'\<lparr>now := now g' + 1\<rparr>) = Inr (a, g'\<lparr>now := now g' + 1\<rparr>)
            \<longleftrightarrow> \<not> a \<or> (100::int) \<le> now ?g + 1"
    using scheduler_halting[OF reachable.start lt] by blast
  have "\<exists>i < length [3, 1, 4, 2 :: nat].
               snd (node_event (now ?g) (the (messages ?g i)) (heap ?g ! i)) \<noteq> []
             \<or> waiting (fst (node_event (now ?g) (the (messages ?g i)) (heap ?g ! i))) \<noteq> []"
    by code_simp
  then have a by (simp only: act)
  then show ?thesis using pr cont halt n by auto
qed

text \<open>
  Against C6. On the ring with the identifiers 1, 1 and 0, which construction accepts,
  the election reaches after the rounds 0 and 1 a state in which the first node is
  elected, having received the identifier 1 of its right neighbour, which is also its
  own; round 2 brings it the candidate 0 and makes it not elected.
\<close>

theorem elected_node_gives_way:
  "reachable (election_setup 100 None (make_ring [1, 1, 0]))
     (True, advance (advance (election_setup 100 None (make_ring [1, 1, 0]))))
   \<and> status (hd (heap (advance (advance (election_setup 100 None (make_ring [1, 1, 0])))))) = Elected
   \<and> map_sum id (status \<circ> hd \<circ> heap \<circ> snd)
        (process_round (advance (advance (election_setup 100 None (make_ring [1, 1, 0])))))
       = Inr NotElected"
proof -
  let ?g0 = "election_setup 100 None (make_ring [1, 1, 0])"
  have r0: "ring ?g0" by (simp add: ring_setup ring_make_ring)
  have n0: "now ?g0 < 100" by (simp add: setup_simps make_ring_def Graph_def)
  have a0: "round_activity ?g0" by code_simp
  have re1: "reachable ?g0 (True, advance ?g0)"
    using reachable_advance[OF r0 reachable.start _ n0] a0 by (simp add: setup_simps)
  have n1: "now (advance ?g0) < 100" by (simp add: advance_simps setup_simps make_ring_def Graph_def)
  have a1: "round_activity (advance ?g0)" by code_simp
  have re2: "reachable ?g0 (True, advance (advance ?g0))"
    using reachable_advance[OF r0 re1 _ n1] a1 by (simp add: advance_simps setup_simps)
  have s: "status (hd (heap (advance (advance ?g0)))) = Elected" by code_simp
  have t: "map_sum id (status \<circ> hd \<circ> heap \<circ> snd) (process_round (advance (advance ?g0))) = Inr NotElected"
    by code_simp
  show ?thesis using re2 s t by simp
qed

text \<open>
  C6, as amended. On a ring with pairwise distinct identifiers, in every state that an
  election reaches, a round changes the status of a node only from asleep to
  participating or relay, or from participating or relay to not elected or elected; the
  status of a node that is elected or not elected stays as it is.
\<close>

theorem status_moves_forward:
  assumes "distinct ids" and "reachable (election_setup cap init (make_ring ids)) (a0, g)"
    and "i < length ids" and "process_round g = Inr (a, g')"
  shows "(status (heap g' ! i) = status (heap g ! i)
          \<or> (status (heap g ! i) = Asleep \<and> status (heap g' ! i) \<in> {Participating, Relay})
          \<or> (status (heap g ! i) \<in> {Participating, Relay} \<and> status (heap g' ! i) \<in> {NotElected, Elected}))
       \<and> (status (heap g ! i) \<in> {NotElected, Elected} \<longrightarrow> status (heap g' ! i) = status (heap g ! i))"
proof -
  have ne: "ids \<noteq> []" using assms(3) by auto
  obtain p where sm: "smallest ids p" using smallest_exists[OF ne] by blast
  have p: "p < length ids" using sm by (simp add: smallest_def)
  have inv: "setting ids p g" "phase ids g" "0 < now g \<longrightarrow> safe ids p g"
    using reachable_election[OF assms(2,1) sm] by simp_all
  have ring: "ring g" and len: "length (heap g) = length ids"
    and id: "ident (heap g ! i) = ids ! i" using inv(1) assms(3) by (simp_all add: setting_def)
  have ih: "i < length (heap g)" using assms(3) len by simp
  have "g'\<lparr>now := now g' + 1\<rparr> = advance g" using round_result(4)[OF ring assms(4) ih] .
  then have "heap (g'\<lparr>now := now g' + 1\<rparr>) = heap (advance g)" by simp
  then have h': "heap g' ! i = heap (advance g) ! i" by simp
  from inv(2) consider "fresh g" | "running g" "0 < now g" by (auto simp: phase_def)
  then show ?thesis
  proof cases
    case 1
    have "status (heap g ! i) = Asleep" using fresh_fields(1)[OF 1 ih] .
    moreover have "status (heap (advance g) ! i) = Participating" using fresh_round(1)[OF 1 ih] by simp
    ultimately show ?thesis using h' by simp
  next
    case 2
    then have sf: "safe ids p g" using inv(3) by simp
    have aw: "awake_node (heap g ! i)" using 2(1) ih by (simp add: running_def)
    obtain v where v: "min_val (heap g ! i) = Known v" using aw by (auto simp: awake_node_def)
    have in_msg: "\<And>m h. (m, h) \<in> set (the (messages g i)) \<Longrightarrow> behind ids p m i"
      using sf assms(3) unfolding safe_def by blast
    note rs = round_status[OF 2(1) ih v]
    have elected_stays: "status (heap (advance g) ! i) = Elected" if e: "status (heap g ! i) = Elected"
    proof -
      have ip: "i = p" using sf assms(3) e unfolding safe_def by blast
      then have "v = ids ! p" using sf v unfolding safe_def by simp
      then have "\<not> (\<exists>(m, h) \<in> set (the (messages g i)). m < v)"
        using behind_ge[OF in_msg sm] by fastforce
      then show ?thesis using rs e by auto
    qed
    have not_elected_stays: "status (heap (advance g) ! i) = NotElected"
      if e: "status (heap g ! i) = NotElected"
    proof -
      have ip: "i \<noteq> p" using sf e unfolding safe_def by auto
      have "\<not> (\<exists>h. (ident (heap g ! i), h) \<in> set (the (messages g i)))"
      proof
        assume "\<exists>h. (ident (heap g ! i), h) \<in> set (the (messages g i))"
        then have "behind ids p (ids ! i) i" using in_msg id by auto
        then show False using behind_self[OF _ assms(1,3)] ip by simp
      qed
      then show ?thesis using rs e by auto
    qed
    have kinds: "status (heap g ! i) = Participating \<or> status (heap g ! i) = NotElected
        \<or> status (heap g ! i) = Elected"
      using aw by (cases "status (heap g ! i)") (simp_all add: awake_node_def)
    have moves: "status (heap (advance g) ! i) = status (heap g ! i)
        \<or> status (heap (advance g) ! i) = NotElected \<or> status (heap (advance g) ! i) = Elected"
      using rs by blast
    show ?thesis unfolding h' using kinds moves elected_stays not_elected_stays by auto
  qed
qed

text \<open>
  C6 at round 1 of the election on the ring 3, 1, 4, 2: the first node gives way to
  candidate 1, the second node keeps participating.
\<close>

theorem status_moves_forward_witness:
  "\<exists>a g'. process_round (advance (election_setup 100 (Some 4) (make_ring [3, 1, 4, 2]))) = Inr (a, g')
      \<and> status (heap (advance (election_setup 100 (Some 4) (make_ring [3, 1, 4, 2]))) ! 0) = Participating \<and> status (heap g' ! 0) = NotElected
      \<and> status (heap (advance (election_setup 100 (Some 4) (make_ring [3, 1, 4, 2]))) ! 1) = Participating \<and> status (heap g' ! 1) = Participating"
proof -
  let ?g0 = "election_setup 100 (Some 4) (make_ring [3, 1, 4, 2])"
  have r0: "ring ?g0" by (simp add: ring_setup ring_make_ring)
  have n: "now ?g0 < 100" by (simp add: setup_simps make_ring_def Graph_def)
  have re: "reachable ?g0 (round_activity ?g0, advance ?g0)"
    by (rule reachable_advance[OF r0 reachable.start _ n]) (simp add: setup_simps)
  have r1: "ring (advance ?g0)" by (rule ring_advance[OF r0])
  obtain a g' where pr: "process_round (advance ?g0) = Inr (a, g')"
    using process_round_ring[OF r1] by blast
  have d: "distinct [3, 1, 4, 2 :: nat]" by simp
  have s0: "status (heap (advance ?g0) ! 0) = Participating" by code_simp
  have s1: "status (heap (advance ?g0) ! 1) = Participating" by code_simp
  have h0: "heap g' ! 0 = fst (node_event (now (advance ?g0)) (the (messages (advance ?g0) 0)) (heap (advance ?g0) ! 0))"
    by (rule round_result(1)[OF r1 pr]) (simp add: advance_simps setup_simps heap_make_ring)
  have h1: "heap g' ! 1 = fst (node_event (now (advance ?g0)) (the (messages (advance ?g0) 1)) (heap (advance ?g0) ! 1))"
    by (rule round_result(1)[OF r1 pr]) (simp add: advance_simps setup_simps heap_make_ring)
  have t0: "status (fst (node_event (now (advance ?g0)) (the (messages (advance ?g0) 0)) (heap (advance ?g0) ! 0))) = NotElected"
    by code_simp
  have t1: "status (fst (node_event (now (advance ?g0)) (the (messages (advance ?g0) 1)) (heap (advance ?g0) ! 1))) = Participating"
    by code_simp
  have "0 < length [3, 1, 4, 2 :: nat]" by simp
  from status_moves_forward[OF d re this pr] show ?thesis using pr s0 s1 h0 h1 t0 t1 by auto
qed

text \<open>
  C7. In every state that an election on a ring reaches, a node whose \<open>min\<close> is a
  number \<open>v\<close> has after the round a number that is at most \<open>v\<close>; and at each
  message of the round, the comparison either leaves \<open>min\<close> as it is or replaces it
  with a strictly smaller number.
\<close>

theorem min_never_increases:
  assumes "reachable (election_setup cap init (make_ring ids)) (a0, g)" and "i < length ids"
    and "min_val (heap g ! i) = Known v" and "process_round g = Inr (a, g')"
  shows "(\<exists>v'. min_val (heap g' ! i) = Known v' \<and> v' \<le> v)
       \<and> (\<forall>R1 x R2. the (messages g i) = R1 @ x # R2 \<longrightarrow>
            (\<exists>v1. min_val (fst (foldl (compare_msg (now g))
                                   (activate (the (messages g i)) (heap g ! i)) R1)) = Known v1
                 \<and> v1 \<le> v
                 \<and> (\<exists>v2. min_val (fst (foldl (compare_msg (now g))
                                   (activate (the (messages g i)) (heap g ! i)) (R1 @ [x]))) = Known v2
                        \<and> (v2 = v1 \<or> v2 < v1))))"
proof -
  have inv: "phase ids g" "ring g" using reachable_phase[OF assms(1)] by simp_all
  have len: "length (heap g) = length ids" using inv(1) by (simp add: phase_def)
  have i: "i < length (heap g)" using assms(2) len by simp
  have "\<not> fresh g" using fresh_fields(2)[OF _ i] assms(3) by auto
  then have "running g" using inv(1) by (auto simp: phase_def)
  then have aw: "awake_node (heap g ! i)" using i by (simp add: running_def)
  let ?R = "the (messages g i)"
  let ?n = "heap g ! i"
  have act: "activate ?R ?n = (?n, [])" using aw by (simp add: activate_def awake_node_def)
  have fold: "\<And>R. fst (foldl (compare_msg (now g)) (activate ?R ?n) R) = compared (now g) R ?n"
    by (simp add: act compared_def)
  have "heap g' ! i = (compared (now g) ?R ?n)
          \<lparr>waiting := filter (\<lambda>e. \<not> due (now g) e) (waiting (compared (now g) ?R ?n))\<rparr>"
    using round_result(1)[OF inv(2) assms(4) i] by (simp add: node_event_awake[OF aw])
  then have "min_val (heap g' ! i) = min_val (compared (now g) ?R ?n)" by simp
  then have part1: "\<exists>v'. min_val (heap g' ! i) = Known v' \<and> v' \<le> v"
    using compared_min[OF aw assms(3), of "now g" ?R] by auto
  have part2: "\<exists>v1. min_val (compared (now g) R1 ?n) = Known v1 \<and> v1 \<le> v
      \<and> (\<exists>v2. min_val (compared (now g) (R1 @ [x]) ?n) = Known v2 \<and> (v2 = v1 \<or> v2 < v1))" for R1 x
  proof -
    obtain v1 where v1: "min_val (compared (now g) R1 ?n) = Known v1" "v1 \<le> v"
      using compared_min[OF aw assms(3), of "now g" R1] by auto
    have aw1: "awake_node (compared (now g) R1 ?n)" using aw by (rule awake_compared)
    obtain m h where x: "x = (m, h)" by (cases x)
    have "foldl (compare_msg (now g)) (?n, []) R1 = (compared (now g) R1 ?n, [])"
      using awake_foldl[OF aw, of "now g" "[]" R1] by (simp add: compared_def prod_eq_iff)
    then have "compared (now g) (R1 @ [x]) ?n = fst (compare_msg (now g) (compared (now g) R1 ?n, []) (m, h))"
      by (simp add: compared_def x)
    then have "min_val (compared (now g) (R1 @ [x]) ?n) = Known (if m < v1 then m else v1)"
      using step_fields(1)[OF aw1 v1(1)] by simp
    then show ?thesis using v1 by auto
  qed
  show ?thesis unfolding fold using part1 part2 by blast
qed

text \<open>C7 at round 1 of the election on the ring 3, 1, 4, 2, for its first node.\<close>

theorem min_never_increases_witness:
  "\<exists>a g' v'. process_round (advance (election_setup 100 (Some 4) (make_ring [3, 1, 4, 2]))) = Inr (a, g')
      \<and> min_val (heap g' ! 0) = Known v' \<and> v' \<le> 3"
proof -
  let ?g0 = "election_setup 100 (Some 4) (make_ring [3, 1, 4, 2])"
  have r0: "ring ?g0" by (simp add: ring_setup ring_make_ring)
  have n: "now ?g0 < 100" by (simp add: setup_simps make_ring_def Graph_def)
  have re: "reachable ?g0 (round_activity ?g0, advance ?g0)"
    by (rule reachable_advance[OF r0 reachable.start _ n]) (simp add: setup_simps)
  have mv: "min_val (heap (advance ?g0) ! 0) = Known 3" by code_simp
  obtain a g' where pr: "process_round (advance ?g0) = Inr (a, g')"
    using process_round_ring[OF ring_advance[OF r0]] by blast
  show ?thesis using min_never_increases[OF re _ mv pr] pr by auto
qed

text \<open>
  Against C8. On the ring of two nodes that both carry the identifier 1, both nodes end
  as leaders and \<open>run_election\<close> returns the two of them as its ordinary result.
\<close>

theorem two_leaders_reported_normally:
  "map_sum id fst (run_election 100 None (make_ring [1, 1])) = Inr [0, 1]"
  by code_simp

text \<open>
  C8, as amended. On every ring that the script's construction yields, for every cap and
  initiator, \<open>run_election\<close> returns without an error, and its result lists, each
  once, exactly the nodes whose leader flag is set, however many they are.
\<close>

theorem election_returns_all_leaders:
  "\<exists>ls g. run_election cap init (make_ring ids) = Inr (ls, g) \<and> distinct ls \<and>
      set ls = {i. i < length ids \<and> is_leader (heap g ! i)}"
proof -
  let ?g0 = "election_setup cap init (make_ring ids)"
  have r0: "ring ?g0" by (simp add: ring_setup ring_make_ring)
  have m0: "max_rounds ?g0 = Some cap" by (simp add: setup_simps)
  obtain a g where rp: "round_process True ?g0 = Inr (a, g)" and re: "reachable ?g0 (a, g)"
    using round_process_reachable[OF r0 m0 reachable.start] by blast
  have "ring g \<and> length (heap g) = length ids"
    using reachable_ring[OF re r0] by (simp add: setup_simps heap_make_ring)
  then have "distinct (leaders g) \<and> set (leaders g) = {i. i < length ids \<and> is_leader (heap g ! i)}"
    by (auto simp: leaders_def ring_def)
  then show ?thesis using rp by (simp add: run_election_def)
qed

text \<open>The amended C8 on the ring with the identifiers 1 and 1.\<close>

theorem election_returns_all_leaders_witness:
  "\<exists>ls g. run_election 100 None (make_ring [1, 1]) = Inr (ls, g) \<and> set ls = {0, 1}
      \<and> is_leader (heap g ! 0) \<and> is_leader (heap g ! 1)"
proof -
  obtain ls g where a: "run_election 100 None (make_ring [1, 1]) = Inr (ls, g)"
    and b: "set ls = {i. i < length [1, 1 :: nat] \<and> is_leader (heap g ! i)}"
    using election_returns_all_leaders[of 100 None "[1, 1]"] by blast
  have "map_sum id fst (run_election 100 None (make_ring [1, 1])) = Inr [0, 1]" by code_simp
  then have "ls = [0, 1]" using a by simp
  then show ?thesis using a b by auto
qed

text \<open>
  C9. On the ring of one node, whatever its identifier and the initiator, an election
  with a cap of at least two rounds stops after the rounds 0 and 1 with that node
  elected and flagged as leader: it wakes up in round 0 and receives its own
  identifier in round 1.
\<close>

theorem single_node_elected:
  "2 \<le> cap \<Longrightarrow> \<exists>g. run_election cap init (make_ring [k]) = Inr ([0], g) \<and> now g = 2 \<and>
      ident (heap g ! 0) = k \<and> status (heap g ! 0) = Elected \<and> is_leader (heap g ! 0)"
  by (simp add: run_election_def election_setup_def leaders_def make_ring_def Graph_def link_ring_def Edge_def
        Node_def round_process.simps process_round_def node_event_def activate_def due_def)

text \<open>C9 at the identifier 5 with the default cap.\<close>

theorem single_node_elected_witness:
  "(2::int) \<le> 100 \<and> (\<exists>g. run_election 100 (Some 5) (make_ring [5]) = Inr ([0], g) \<and> now g = 2 \<and>
      ident (heap g ! 0) = 5 \<and> status (heap g ! 0) = Elected \<and> is_leader (heap g ! 0))"
  using single_node_elected[of 100 "Some 5" 5] by simp

text \<open>
  C10. In every state that an election on a ring reaches, no node is a relay, no node has
  the minimum \<open>+infinity\<close>, and at no message of the round does the test of line 79
  succeed. Before round 0 every node sleeps with an empty inbound queue, and round 0
  makes it participating with its own identifier as minimum; in every later state the
  node is not asleep and its minimum is a number.
\<close>

theorem no_relay_ever:
  assumes "reachable (election_setup cap init (make_ring ids)) (a0, g)" and "i < length ids"
  shows "status (heap g ! i) \<noteq> Relay \<and> min_val (heap g ! i) \<noteq> Infinity
       \<and> (\<forall>R1 x R2. the (messages g i) = R1 @ x # R2 \<longrightarrow>
             \<not> relays_cheaply (fst (foldl (compare_msg (now g))
                                    (activate (the (messages g i)) (heap g ! i)) R1)) x)
       \<and> (if now g = 0
          then status (heap g ! i) = Asleep \<and> messages g i = Some []
             \<and> (\<exists>a g'. process_round g = Inr (a, g') \<and> status (heap g' ! i) = Participating
                    \<and> min_val (heap g' ! i) = Known (ids ! i))
          else status (heap g ! i) \<noteq> Asleep \<and> (\<exists>v. min_val (heap g ! i) = Known v))"
proof -
  have inv: "phase ids g" "ring g" using reachable_phase[OF assms(1)] by simp_all
  have len: "length (heap g) = length ids" and id: "ident (heap g ! i) = ids ! i"
    using inv(1) assms(2) by (simp_all add: phase_def)
  have i: "i < length (heap g)" using assms(2) len by simp
  let ?R = "the (messages g i)"
  let ?n = "heap g ! i"
  from inv(1) consider "fresh g" "now g = 0" | "running g" "0 < now g" by (auto simp: phase_def)
  then show ?thesis
  proof cases
    case 1
    note f = fresh_fields[OF 1(1) i]
    obtain a g' where pr: "process_round g = Inr (a, g')" using process_round_ring[OF inv(2)] by blast
    have "heap g' ! i = fst (event (now g) (messages g) (heap g) i)"
      using round_result(1)[OF inv(2) pr i] by (simp add: event_def)
    then have "status (heap g' ! i) = Participating \<and> min_val (heap g' ! i) = Known (ids ! i)"
      using event_fresh[OF 1(1) i] id by simp
    then show ?thesis using f 1(2) pr by simp
  next
    case 2
    then have aw: "awake_node ?n" using i by (simp add: running_def)
    have act: "activate ?R ?n = (?n, [])" using aw by (simp add: activate_def awake_node_def)
    have "\<not> relays_cheaply (fst (foldl (compare_msg (now g)) (activate ?R ?n) R1)) x" for R1 x
    proof -
      have "awake_node (fst (foldl (compare_msg (now g)) (?n, []) R1))"
        using awake_foldl[OF aw] by simp
      then show ?thesis unfolding act by (cases x) (simp add: awake_node_def)
    qed
    then have nr: "\<forall>R1 x R2. ?R = R1 @ x # R2 \<longrightarrow>
             \<not> relays_cheaply (fst (foldl (compare_msg (now g)) (activate ?R ?n) R1)) x"
      by blast
    have s: "status ?n \<noteq> Relay \<and> min_val ?n \<noteq> Infinity" using aw by (auto simp: awake_node_def)
    have last: "if now g = 0
          then status ?n = Asleep \<and> messages g i = Some []
             \<and> (\<exists>a g'. process_round g = Inr (a, g') \<and> status (heap g' ! i) = Participating
                    \<and> min_val (heap g' ! i) = Known (ids ! i))
          else status ?n \<noteq> Asleep \<and> (\<exists>v. min_val ?n = Known v)"
      using aw 2(2) by (simp add: awake_node_def)
    from s nr last show ?thesis by blast
  qed
qed

text \<open>C10 at the start of the election on the ring 3, 1, 4, 2, for its first node.\<close>

theorem no_relay_ever_witness:
  "status (heap (election_setup 100 (Some 4) (make_ring [3, 1, 4, 2])) ! 0) = Asleep
   \<and> (\<exists>a g'. process_round (election_setup 100 (Some 4) (make_ring [3, 1, 4, 2])) = Inr (a, g')
          \<and> status (heap g' ! 0) = Participating \<and> min_val (heap g' ! 0) = Known 3)"
proof -
  have n: "now (election_setup 100 (Some 4) (make_ring [3, 1, 4, 2])) = 0" by (simp add: setup_simps make_ring_def Graph_def)
  show ?thesis
    using no_relay_ever[OF reachable.start, of 0 "[3, 1, 4, 2]" 100 "Some 4"] n by simp
qed

end
